theory Spec2Isabelle
  imports Complex_Main "HOL-Library.Log_Nat" "HOL-Library.Word"
begin


text \<open>
  A shallow embedding of \<^verbatim>\<open>scripts/linkedin_photo_prepare.py\<close>. The script keys out a red
  backdrop, composites the subject over a generated gradient, detects a face and draws a
  necktie. Its own code is arithmetic on image sizes, colours and face rectangles; the
  pixel work is done by NumPy, Pillow and OpenCV. What those libraries compute is a
  parameter of the model wherever the script only calls them, and Python's and NumPy's
  number semantics (unbounded integers, binary64 and binary32 floats, 8-bit channels) are
  written out.
\<close>

section \<open>Numbers\<close>

text \<open>
  The exceptions the model distinguishes; \<open>cv2_error\<close> is OpenCV's \<open>cv2.error\<close>, which its
  functions raise on an array they do not accept (an empty one, for instance). A
  computation that may raise has a result of type \<open>py_error + 'a\<close>; \<open>and_then\<close> runs the
  next statement on the value of a call that returned and passes an exception on.
\<close>

datatype py_error = ZeroDivisionError | ValueError | TypeError | cv2_error

definition and_then :: "py_error + 'a \<Rightarrow> ('a \<Rightarrow> py_error + 'b) \<Rightarrow> py_error + 'b" where
  "and_then r f = (case r of Inl e \<Rightarrow> Inl e | Inr v \<Rightarrow> f v)"

subsection \<open>Binary floating point\<close>

text \<open>
  A finite float is modelled by the rational number it denotes, and every floating-point
  operation is the exact operation followed by rounding to the nearest representable
  number, ties to even (IEEE 754, the default mode, which CPython and NumPy use).
  \<open>fl_round p\<close> rounds to \<open>p\<close> significant bits: \<open>ilog2 x\<close> is the exponent of \<open>x\<close>,
  \<open>2 powi (ilog2 x - (p - 1))\<close> the spacing of the representable numbers around it.
  The exponent range is not modelled: no value of the script comes near \<open>2 powi 1024\<close> or
  below \<open>2 powi (- 1022)\<close> for the image sizes the theorems speak about.
\<close>

definition rne :: "rat \<Rightarrow> int" where
  "rne x = (let f = \<lfloor>x\<rfloor>; d = x - of_int f in
     if d < 1/2 then f else if 1/2 < d then f + 1 else if even f then f else f + 1)"

definition ilog2 :: "rat \<Rightarrow> int" where
  "ilog2 x = (let (p, q) = quotient_of x; e = bitlen p - bitlen q in
     if 2 powi e \<le> x then e else e - 1)"

definition fl_round :: "nat \<Rightarrow> rat \<Rightarrow> rat" where
  "fl_round p x = (if x = 0 then 0 else
     let q = 2 powi (ilog2 \<bar>x\<bar> - (int p - 1)) in sgn x * of_int (rne (\<bar>x\<bar> / q)) * q)"

text \<open>Python's \<open>float\<close> is binary64 (53 significant bits), \<open>numpy.float32\<close> is binary32 (24).\<close>

definition rnd64 :: "rat \<Rightarrow> rat" where
  "rnd64 = fl_round 53"

definition rnd32 :: "rat \<Rightarrow> rat" where
  "rnd32 = fl_round 24"

text \<open>
  \<open>py_float n\<close> is the conversion of an \<open>int\<close> operand in mixed arithmetic, \<open>py_lit r\<close> the
  float a decimal literal such as \<open>0.42\<close> denotes (the literal is read with correct
  rounding), \<open>py_int\<close> is \<open>int(x)\<close>, which truncates towards zero, and \<open>py_truediv\<close> is
  \<open>a / b\<close> on two \<open>int\<close>s, correctly rounded, raising on a zero divisor.
\<close>

definition py_float :: "int \<Rightarrow> rat" where
  "py_float n = rnd64 (of_int n)"

definition py_lit :: "rat \<Rightarrow> rat" where
  "py_lit r = rnd64 r"

definition py_int :: "rat \<Rightarrow> int" where
  "py_int x = (if 0 \<le> x then \<lfloor>x\<rfloor> else \<lceil>x\<rceil>)"

definition py_truediv :: "int \<Rightarrow> int \<Rightarrow> py_error + rat" where
  "py_truediv a b = (if b = 0 then Inl ZeroDivisionError else Inr (rnd64 (of_int a / of_int b)))"

text \<open>\<open>n * c\<close>, \<open>n + c\<close> and \<open>n - c\<close> for an \<open>int\<close> \<open>n\<close> and a \<open>float\<close> \<open>c\<close>.\<close>

definition int_mul_float :: "int \<Rightarrow> rat \<Rightarrow> rat" where
  "int_mul_float n c = rnd64 (py_float n * c)"

definition int_add_float :: "int \<Rightarrow> rat \<Rightarrow> rat" where
  "int_add_float n c = rnd64 (py_float n + c)"

definition int_sub_float :: "int \<Rightarrow> rat \<Rightarrow> rat" where
  "int_sub_float n c = rnd64 (py_float n - c)"

text \<open>
  \<open>int(n * 0.42)\<close> and its like occur throughout \<open>draw_tie\<close>: the product of an \<open>int\<close> and
  a decimal literal, truncated.
\<close>

definition int_of_scaled :: "int \<Rightarrow> rat \<Rightarrow> int" where
  "int_of_scaled n r = py_int (int_mul_float n (py_lit r))"

text \<open>
  NumPy: an integer stored into a \<open>float32\<close> array, and \<open>astype(np.uint8)\<close> on a float,
  which truncates; the script only casts values between 0 and 255.
\<close>

definition np_float32 :: "int \<Rightarrow> rat" where
  "np_float32 n = rnd32 (of_int n)"

definition astype_uint8 :: "rat \<Rightarrow> 8 word" where
  "astype_uint8 x = word_of_int (py_int x)"

section \<open>Images\<close>

text \<open>
  A pixel has four 8-bit channels; an image is its size and its rows of pixels, as the
  \<open>(height, width, 4)\<close> array that \<open>np.array\<close> and \<open>Image.fromarray\<close> convert from and to.
\<close>

datatype pixel = RGBA (px_r: "8 word") (px_g: "8 word") (px_b: "8 word") (px_a: "8 word")

type_synonym rgb = "8 word \<times> 8 word \<times> 8 word"

record image =
  img_width :: nat
  img_height :: nat
  img_pixels :: "pixel list list"

definition img_size :: "image \<Rightarrow> nat \<times> nat" where
  "img_size im = (img_width im, img_height im)"

definition rgb_of :: "pixel \<Rightarrow> rgb" where
  "rgb_of p = (px_r p, px_g p, px_b p)"

text \<open>\<open>Image.fromarray(a, mode="RGBA")\<close> for an array of shape \<open>(h, w, 4)\<close>.\<close>

definition fromarray :: "pixel list list \<Rightarrow> image" where
  "fromarray a = \<lparr>img_width = (case a of [] \<Rightarrow> 0 | row # _ \<Rightarrow> length row),
                  img_height = length a, img_pixels = a\<rparr>"

text \<open>\<open>np.array(image.convert("RGB"))\<close>: the alpha channel is dropped.\<close>

definition convert_rgb :: "image \<Rightarrow> rgb list list" where
  "convert_rgb im = map (map rgb_of) (img_pixels im)"

section \<open>FaceBox\<close>

record FaceBox =
  fb_x :: int
  fb_y :: int
  fb_width :: int
  fb_height :: int

text \<open>\<open>(self.x + self.width // 2, int(self.y + self.height * 0.95))\<close>\<close>

definition center_bottom :: "FaceBox \<Rightarrow> int \<times> int" where
  "center_bottom self =
     (fb_x self + fb_width self div 2,
      py_int (int_add_float (fb_y self) (int_mul_float (fb_height self) (py_lit (95/100)))))"

section \<open>generate\_linkedin\_gradient\_background\<close>

type_synonym color = "int \<times> int \<times> int"

text \<open>The four channels of one colour, as the arrays \<open>top\<close>, \<open>bottom\<close> and \<open>color\<close> hold them.\<close>

type_synonym 'a vec4 = "'a \<times> 'a \<times> 'a \<times> 'a"

definition map4 :: "('a \<Rightarrow> 'b) \<Rightarrow> 'a vec4 \<Rightarrow> 'b vec4" where
  "map4 f v = (case v of (a, b, c, d) \<Rightarrow> (f a, f b, f c, f d))"

definition zip4 :: "('a \<Rightarrow> 'b \<Rightarrow> 'c) \<Rightarrow> 'a vec4 \<Rightarrow> 'b vec4 \<Rightarrow> 'c vec4" where
  "zip4 f u v = (case (u, v) of ((a, b, c, d), (a', b', c', d')) \<Rightarrow> (f a a', f b b', f c c', f d d'))"

text \<open>\<open>np.array([*top_color, 255], dtype=np.float32)\<close>\<close>

definition color_array :: "color \<Rightarrow> rat vec4" where
  "color_array c = (case c of (r, g, b) \<Rightarrow> map4 np_float32 (r, g, b, 255))"

text \<open>
  A Python \<open>float\<close> times a \<open>float32\<close> array is computed in \<open>float32\<close>: the scalar is cast to
  \<open>float32\<close>, and each product is rounded to \<open>float32\<close>. So is the sum of two \<open>float32\<close>
  arrays.
\<close>

definition scalar_mul32 :: "rat \<Rightarrow> rat vec4 \<Rightarrow> rat vec4" where
  "scalar_mul32 s v = map4 (\<lambda>c. rnd32 (rnd32 s * c)) v"

definition add32 :: "rat vec4 \<Rightarrow> rat vec4 \<Rightarrow> rat vec4" where
  "add32 u v = zip4 (\<lambda>a b. rnd32 (a + b)) u v"

definition astype_pixel :: "rat vec4 \<Rightarrow> pixel" where
  "astype_pixel v = (case map4 astype_uint8 v of (r, g, b, a) \<Rightarrow> RGBA r g b a)"

text \<open>
  The body of the loop for one \<open>row\<close>:
  \<^verbatim>\<open>t = row / max(1, height - 1); color = (1 - t) * top + t * bottom\<close>
\<close>

definition blend :: "rat \<Rightarrow> rat vec4 \<Rightarrow> rat vec4 \<Rightarrow> rat vec4" where
  "blend t top' bottom' = add32 (scalar_mul32 (int_sub_float 1 t) top') (scalar_mul32 t bottom')"

definition row_color :: "int \<Rightarrow> int \<Rightarrow> rat vec4 \<Rightarrow> rat vec4 \<Rightarrow> py_error + rat vec4" where
  "row_color height row top' bottom' =
     (case py_truediv row (max 1 (height - 1)) of
        Inl e \<Rightarrow> Inl e
      | Inr t \<Rightarrow> Inr (blend t top' bottom'))"

text \<open>
  \<^verbatim>\<open>for row in range(height): ...; gradient[row, :, :] = color.astype(np.uint8)\<close>
  on the array \<open>gradient\<close>, which starts as \<open>np.zeros((height, width, 4), dtype=np.uint8)\<close>.
\<close>

definition np_zeros :: "int \<Rightarrow> int \<Rightarrow> pixel list list" where
  "np_zeros height width = replicate (nat height) (replicate (nat width) (RGBA 0 0 0 0))"

fun gradient_loop ::
  "int \<Rightarrow> int \<Rightarrow> rat vec4 \<Rightarrow> rat vec4 \<Rightarrow> nat list \<Rightarrow> pixel list list
     \<Rightarrow> py_error + pixel list list" where
  "gradient_loop width height top' bottom' [] gradient = Inr gradient"
| "gradient_loop width height top' bottom' (row # rows) gradient =
     (case row_color height (int row) top' bottom' of
        Inl e \<Rightarrow> Inl e
      | Inr color \<Rightarrow>
          gradient_loop width height top' bottom' rows
            (gradient[row := replicate (nat width) (astype_pixel color)]))"

definition generate_linkedin_gradient_background ::
  "int \<Rightarrow> int \<Rightarrow> color \<Rightarrow> color \<Rightarrow> py_error + image" where
  "generate_linkedin_gradient_background width height top_color bottom_color =
     (if width < 0 \<or> height < 0 then Inl ValueError
      else case gradient_loop width height (color_array top_color) (color_array bottom_color)
                  [0..<nat height] (np_zeros height width) of
             Inl e \<Rightarrow> Inl e
           | Inr gradient \<Rightarrow>
               Inr \<lparr>img_width = nat width, img_height = nat height, img_pixels = gradient\<rparr>)"

text \<open>The default colours of the two parameters.\<close>

definition default_top_color :: color where
  "default_top_color = (234, 243, 255)"

definition default_bottom_color :: color where
  "default_bottom_color = (191, 215, 255)"

section \<open>remove\_background\_keep\_subject\<close>

text \<open>
  The mask is computed by OpenCV. Its functions are parameters of the model, collected
  in a record, each with the arguments the script passes (iteration counts and the
  blur's sigma last). Each of them may raise \<open>cv2.error\<close> instead of returning, as
  \<open>cv2.cvtColor\<close> does on an empty array: a result is \<open>Inl\<close> of the exception or \<open>Inr\<close> of the
  array.
\<close>

datatype morph_shape = MORPH_ELLIPSE | MORPH_RECT

datatype morph_op = MORPH_CLOSE | MORPH_OPEN

type_synonym mask = "8 word list list"

record cv2 =
  cvtColor_RGB2BGR :: "rgb list list \<Rightarrow> py_error + rgb list list"
  cvtColor_BGR2HSV :: "rgb list list \<Rightarrow> py_error + rgb list list"
  cvtColor_RGB2GRAY :: "rgb list list \<Rightarrow> py_error + mask"
  inRange :: "rgb list list \<Rightarrow> int \<times> int \<times> int \<Rightarrow> int \<times> int \<times> int \<Rightarrow> py_error + mask"
  bitwise_or :: "mask \<Rightarrow> mask \<Rightarrow> py_error + mask"
  getStructuringElement :: "morph_shape \<Rightarrow> nat \<times> nat \<Rightarrow> py_error + mask"
  morphologyEx :: "mask \<Rightarrow> morph_op \<Rightarrow> mask \<Rightarrow> nat \<Rightarrow> py_error + mask"
  dilate :: "mask \<Rightarrow> mask \<Rightarrow> nat \<Rightarrow> py_error + mask"
  bitwise_not :: "mask \<Rightarrow> py_error + mask"
  GaussianBlur :: "mask \<Rightarrow> nat \<times> nat \<Rightarrow> int \<Rightarrow> py_error + mask"

text \<open>
  Lines 70 to 97: from the RGB array to the feathered subject mask, call by call in the
  order of the script; the first call that raises ends the computation.
\<close>

definition subject_mask :: "'a cv2_scheme \<Rightarrow> rgb list list \<Rightarrow> py_error + mask" where
  "subject_mask cv rgb =
     and_then (cvtColor_RGB2BGR cv rgb) (\<lambda>bgr.
     and_then (cvtColor_BGR2HSV cv bgr) (\<lambda>hsv.
     and_then (inRange cv hsv (0, 60, 40) (10, 255, 255)) (\<lambda>mask1.
     and_then (inRange cv hsv (170, 60, 40) (180, 255, 255)) (\<lambda>mask2.
     and_then (bitwise_or cv mask1 mask2) (\<lambda>red_bg_mask.
     and_then (getStructuringElement cv MORPH_ELLIPSE (7, 7)) (\<lambda>kernel.
     and_then (morphologyEx cv red_bg_mask MORPH_CLOSE kernel 2) (\<lambda>red_bg_mask.
     and_then (morphologyEx cv red_bg_mask MORPH_OPEN kernel 1) (\<lambda>red_bg_mask.
     and_then (getStructuringElement cv MORPH_RECT (25, 25)) (\<lambda>border_kernel.
     and_then (dilate cv red_bg_mask border_kernel 1) (\<lambda>red_bg_mask.
     and_then (bitwise_not cv red_bg_mask) (\<lambda>subj_mask.
     GaussianBlur cv subj_mask (9, 9) 0)))))))))))"

text \<open>
  \<^verbatim>\<open>alpha = subj_mask.astype(np.float32) / 255.0\<close> and \<^verbatim>\<open>(alpha * 255).astype(np.uint8)\<close>,
  for one value of the mask: both operations are \<open>float32\<close> operations.
\<close>

definition alpha_of_mask :: "8 word \<Rightarrow> 8 word" where
  "alpha_of_mask m = astype_uint8 (rnd32 (rnd32 (np_float32 (uint m) / rnd32 255) * rnd32 255))"

text \<open>
  The three colour planes \<open>np.array(rgb)[:, :, 0]\<close>, \<open>[:, :, 1]\<close> and \<open>[:, :, 2]\<close>.
\<close>

definition rgb_r :: "rgb \<Rightarrow> 8 word" where
  "rgb_r p = (case p of (r, g, b) \<Rightarrow> r)"

definition rgb_g :: "rgb \<Rightarrow> 8 word" where
  "rgb_g p = (case p of (r, g, b) \<Rightarrow> g)"

definition rgb_b :: "rgb \<Rightarrow> 8 word" where
  "rgb_b p = (case p of (r, g, b) \<Rightarrow> b)"

definition plane :: "(rgb \<Rightarrow> 8 word) \<Rightarrow> rgb list list \<Rightarrow> mask" where
  "plane channel a = map (map channel) a"

text \<open>
  \<open>np.dstack\<close> of four planes into an array of pixels; planes of different shapes raise
  \<open>ValueError\<close>.
\<close>

definition dstack_row :: "8 word list \<Rightarrow> 8 word list \<Rightarrow> 8 word list \<Rightarrow> 8 word list \<Rightarrow> pixel list" where
  "dstack_row rr gr br ar = map (\<lambda>(r, g, b, a). RGBA r g b a) (zip rr (zip gr (zip br ar)))"

definition dstack4 :: "mask \<Rightarrow> mask \<Rightarrow> mask \<Rightarrow> mask \<Rightarrow> py_error + pixel list list" where
  "dstack4 r g b a =
     (if map length g = map length r \<and> map length b = map length r \<and> map length a = map length r
      then Inr (map (\<lambda>(rr, gr, br, ar). dstack_row rr gr br ar) (zip r (zip g (zip b a))))
      else Inl ValueError)"

text \<open>
  The function: the mask first (an exception of OpenCV ends the call), then the four
  planes stacked into the RGBA image.
\<close>

definition remove_background_keep_subject :: "'a cv2_scheme \<Rightarrow> image \<Rightarrow> py_error + image" where
  "remove_background_keep_subject cv image' =
     (let rgb = convert_rgb image'
      in and_then (subject_mask cv rgb) (\<lambda>subj_mask.
         and_then (dstack4 (plane rgb_r rgb) (plane rgb_g rgb) (plane rgb_b rgb)
                           (map (map alpha_of_mask) subj_mask)) (\<lambda>rgba.
         Inr (fromarray rgba))))"

section \<open>detect\_primary\_face\_bbox\<close>

text \<open>
  The Haar cascade is OpenCV's: \<open>detectMultiScale\<close> is a parameter, called with the
  grey image and the keyword arguments the script passes; it answers with the list of
  rectangles \<open>(x, y, w, h)\<close> it found, or raises. OpenCV hands the rectangles over as an
  array of 32-bit signed integers (dtype \<open>int32\<close>), so the key \<open>f[2] * f[3]\<close> is a 32-bit
  product, which wraps around; \<open>int(x)\<close> turns a coordinate into a Python integer.
\<close>

datatype cascade_flag = CASCADE_SCALE_IMAGE

record cascade_args =
  scaleFactor :: rat
  minNeighbors :: int
  flags :: cascade_flag
  minSize :: "int \<times> int"

type_synonym rect = "32 word \<times> 32 word \<times> 32 word \<times> 32 word"

type_synonym detector = "mask \<Rightarrow> cascade_args \<Rightarrow> py_error + rect list"

definition face_cascade_args :: cascade_args where
  "face_cascade_args =
     \<lparr>scaleFactor = py_lit (11/10), minNeighbors = 5, flags = CASCADE_SCALE_IMAGE,
      minSize = (80, 80)\<rparr>"

text \<open>
  \<open>max(faces, key=...)\<close>: Python keeps the first element whose key is largest, replacing
  the best so far only by a strictly larger one.
\<close>

fun py_max_key :: "('a \<Rightarrow> int) \<Rightarrow> 'a \<Rightarrow> 'a list \<Rightarrow> 'a" where
  "py_max_key key best [] = best"
| "py_max_key key best (f # fs) = py_max_key key (if key best < key f then f else best) fs"

definition face_area :: "rect \<Rightarrow> int" where
  "face_area f = (case f of (x, y, w, h) \<Rightarrow> sint (w * h))"

text \<open>
  Lines 114 to 124. The grey conversion of line 114 comes first and may raise; an empty
  answer of the detector gives \<open>None\<close>.
\<close>

definition detect_primary_face_bbox ::
  "'a cv2_scheme \<Rightarrow> detector \<Rightarrow> image \<Rightarrow> py_error + FaceBox option" where
  "detect_primary_face_bbox cv detectMultiScale image_rgb =
     and_then (cvtColor_RGB2GRAY cv (convert_rgb image_rgb)) (\<lambda>gray.
     and_then (detectMultiScale gray face_cascade_args) (\<lambda>faces.
       case faces of
         [] \<Rightarrow> Inr None
       | f # fs \<Rightarrow>
           (case py_max_key face_area f fs of
              (x, y, w, h) \<Rightarrow>
                Inr (Some \<lparr>fb_x = sint x, fb_y = sint y, fb_width = sint w, fb_height = sint h\<rparr>))))"

section \<open>draw\_tie\<close>

text \<open>
  The local variables of \<open>draw_tie\<close>, in the order the function computes them from the
  image size \<open>(w, h)\<close> and the optional face box.
\<close>

record tie_geometry =
  cx :: int
  cy :: int
  face_height :: int
  knot_height :: int
  knot_width :: int
  tie_length :: int
  tie_bottom_width :: int
  knot_top_y :: int
  knot_bottom_y :: int
  half_knot_w :: int
  tip_y :: int
  blade_half_top :: int
  blade_half_bottom :: int

definition tie_layout :: "int \<Rightarrow> int \<Rightarrow> FaceBox option \<Rightarrow> tie_geometry" where
  "tie_layout w h face_box =
     (let (cx', cy', face_height') =
            (case face_box of
               None \<Rightarrow> (w div 2, int_of_scaled h (42/100), int_of_scaled h (22/100))
             | Some fb \<Rightarrow> (fst (center_bottom fb), snd (center_bottom fb), fb_height fb));
          knot_height' = max 12 (int_of_scaled face_height' (12/100));
          knot_width' = max 16 (int_of_scaled face_height' (16/100));
          tie_length' = max (int_of_scaled h (20/100)) (int_of_scaled face_height' (12/10));
          tie_bottom_width' = max 26 (int_of_scaled knot_width' (16/10));
          knot_top_y' = cy' + int_of_scaled face_height' (2/100);
          knot_bottom_y' = knot_top_y' + knot_height';
          half_knot_w' = knot_width' div 2;
          tip_y' = min (h - 6) (knot_bottom_y' + tie_length')
      in \<lparr>cx = cx', cy = cy', face_height = face_height', knot_height = knot_height',
          knot_width = knot_width', tie_length = tie_length',
          tie_bottom_width = tie_bottom_width', knot_top_y = knot_top_y',
          knot_bottom_y = knot_bottom_y', half_knot_w = half_knot_w', tip_y = tip_y',
          blade_half_top = int_of_scaled knot_width' (6/10),
          blade_half_bottom = tie_bottom_width' div 2\<rparr>)"

definition knot_points :: "tie_geometry \<Rightarrow> (int \<times> int) list" where
  "knot_points g =
     [(cx g - half_knot_w g, knot_top_y g),
      (cx g + half_knot_w g, knot_top_y g),
      (cx g + int_of_scaled (half_knot_w g) (7/10), knot_bottom_y g),
      (cx g - int_of_scaled (half_knot_w g) (7/10), knot_bottom_y g)]"

definition blade_points :: "tie_geometry \<Rightarrow> (int \<times> int) list" where
  "blade_points g =
     [(cx g - blade_half_top g, knot_bottom_y g),
      (cx g + blade_half_top g, knot_bottom_y g),
      (cx g + blade_half_bottom g, tip_y g - int_of_scaled (tie_bottom_width g) (4/10)),
      (cx g, tip_y g),
      (cx g - blade_half_bottom g, tip_y g - int_of_scaled (tie_bottom_width g) (4/10))]"

definition highlight_poly :: "tie_geometry \<Rightarrow> (int \<times> int) list" where
  "highlight_poly g =
     [(cx g - blade_half_top g + 1, knot_bottom_y g + 2),
      (cx g - blade_half_top g + 1, tip_y g - int_of_scaled (tie_bottom_width g) (45/100)),
      (cx g - 2, tip_y g - 4),
      (cx g - 2, knot_bottom_y g + 2)]"

definition navy :: pixel where
  "navy = RGBA 10 42 102 255"

definition navy_dark :: pixel where
  "navy_dark = RGBA 6 26 64 255"

definition highlight :: pixel where
  "highlight = RGBA 255 255 255 60"

text \<open>
  Pillow's images are mutable objects. A store holds them; a reference is an index into
  it. \<open>copy\<close> and \<open>convert\<close> allocate a new image, \<open>ImageDraw.polygon\<close> overwrites the
  image its \<open>Draw\<close> object was made for. What a polygon does to the pixels is Pillow's
  rasteriser, the parameter \<open>polygon\<close> (image, vertices, fill, outline).
\<close>

type_synonym store = "image list"

type_synonym rasteriser = "image \<Rightarrow> (int \<times> int) list \<Rightarrow> pixel \<Rightarrow> pixel option \<Rightarrow> image"

definition alloc :: "store \<Rightarrow> image \<Rightarrow> store \<times> nat" where
  "alloc s im = (s @ [im], length s)"

definition image_copy :: "store \<Rightarrow> nat \<Rightarrow> store \<times> nat" where
  "image_copy s r = alloc s (s ! r)"

definition image_convert_rgba :: "store \<Rightarrow> nat \<Rightarrow> store \<times> nat" where
  "image_convert_rgba s r = alloc s (s ! r)"

definition draw_polygon ::
  "rasteriser \<Rightarrow> store \<Rightarrow> nat \<Rightarrow> (int \<times> int) list \<Rightarrow> pixel \<Rightarrow> pixel option \<Rightarrow> store" where
  "draw_polygon polygon s r xy fill outline = s[r := polygon (s ! r) xy fill outline]"

definition draw_tie :: "rasteriser \<Rightarrow> store \<Rightarrow> nat \<Rightarrow> FaceBox option \<Rightarrow> store \<times> nat" where
  "draw_tie polygon s image_rgba face_box =
     (let (s1, copied) = image_copy s image_rgba;
          (s2, img) = image_convert_rgba s1 copied;
          g = tie_layout (int (img_width (s2 ! img))) (int (img_height (s2 ! img))) face_box;
          s3 = draw_polygon polygon s2 img (knot_points g) navy (Some navy_dark);
          s4 = draw_polygon polygon s3 img (blade_points g) navy (Some navy_dark);
          s5 = draw_polygon polygon s4 img (highlight_poly g) highlight None
      in (s5, img))"

section \<open>compose\_subject\_on\_background\<close>

text \<open>
  Modelled from the spec: \<open>Image.alpha_composite\<close> is Pillow's and not part of the
  repository. The spec calls it standard alpha blending with the over operator: for a
  source pixel of colour \<open>c\<^sub>s\<close> and opacity \<open>a\<^sub>s\<close> over a backdrop pixel \<open>c\<^sub>b\<close>, \<open>a\<^sub>b\<close>
  (opacities as fractions of 255), the result has opacity \<open>a\<^sub>s + a\<^sub>b (1 - a\<^sub>s)\<close> and
  colour \<open>(c\<^sub>s a\<^sub>s + c\<^sub>b a\<^sub>b (1 - a\<^sub>s))\<close> divided by that opacity. Channels are 8-bit, so
  each quotient is rounded to the nearest integer; where the result is fully
  transparent the colour is 0.
\<close>

definition over_alpha :: "8 word \<Rightarrow> 8 word \<Rightarrow> nat" where
  "over_alpha a_s a_b = unat a_s * 255 + unat a_b * (255 - unat a_s)"

definition round_div :: "nat \<Rightarrow> nat \<Rightarrow> nat" where
  "round_div n d = (2 * n + d) div (2 * d)"

definition over_channel :: "8 word \<Rightarrow> 8 word \<Rightarrow> 8 word \<Rightarrow> 8 word \<Rightarrow> 8 word" where
  "over_channel c_s a_s c_b a_b =
     (if over_alpha a_s a_b = 0 then 0
      else of_nat (round_div (unat c_s * unat a_s * 255 + unat c_b * unat a_b * (255 - unat a_s))
                             (over_alpha a_s a_b)))"

definition over :: "pixel \<Rightarrow> pixel \<Rightarrow> pixel" where
  "over src dst =
     RGBA (over_channel (px_r src) (px_a src) (px_r dst) (px_a dst))
          (over_channel (px_g src) (px_a src) (px_g dst) (px_a dst))
          (over_channel (px_b src) (px_a src) (px_b dst) (px_a dst))
          (of_nat (round_div (over_alpha (px_a src) (px_a dst)) 255))"

text \<open>
  Modelled from the spec: \<open>Image.alpha_composite(im1, im2)\<close> puts \<open>im2\<close> over \<open>im1\<close>, pixel
  by pixel, and refuses images of different sizes.
\<close>

definition alpha_composite :: "image \<Rightarrow> image \<Rightarrow> py_error + image" where
  "alpha_composite im1 im2 =
     (if img_size im1 \<noteq> img_size im2 then Inl ValueError
      else Inr \<lparr>img_width = img_width im1, img_height = img_height im1,
                img_pixels = map2 (map2 (\<lambda>dst src. over src dst)) (img_pixels im1) (img_pixels im2)\<rparr>)"

text \<open>
  \<open>resize\<close> is Pillow's Lanczos resampling, a parameter: an image and the requested size
  \<open>(width, height)\<close>; like every library call it may raise. \<open>copy()\<close> and
  \<open>convert("RGBA")\<close> give new images with the pixels of the old ones, and nothing is
  drawn on them here: as values, \<open>bg\<close> and \<open>subj\<close> are the arguments.
\<close>

type_synonym resampler = "image \<Rightarrow> int \<times> int \<Rightarrow> py_error + image"

definition size_of :: "image \<Rightarrow> int \<times> int" where
  "size_of im = (int (img_width im), int (img_height im))"

definition compose_subject_on_background :: "resampler \<Rightarrow> image \<Rightarrow> image \<Rightarrow> py_error + image" where
  "compose_subject_on_background resize subject_rgba background_rgba =
     (let bg = background_rgba;
          subj = subject_rgba
      in case (if size_of subj \<noteq> size_of bg then resize subj (size_of bg) else Inr subj) of
           Inl e \<Rightarrow> Inl e
         | Inr subj \<Rightarrow> alpha_composite bg subj)"

section \<open>process\<close>

text \<open>
  \<open>width\<close> and \<open>height\<close> are \<open>Optional[int]\<close>. In \<open>a or b\<close> and in \<open>if a\<close>, \<open>None\<close> and \<open>0\<close>
  count as false, and \<open>b\<close> is evaluated only then; dividing \<open>None\<close> raises \<open>TypeError\<close>.
\<close>

definition truthy :: "int option \<Rightarrow> bool" where
  "truthy v = (case v of None \<Rightarrow> False | Some n \<Rightarrow> n \<noteq> 0)"

definition py_or :: "int option \<Rightarrow> py_error + int \<Rightarrow> py_error + int" where
  "py_or v alt = (case v of None \<Rightarrow> alt | Some n \<Rightarrow> if n \<noteq> 0 then Inr n else alt)"

definition opt_truediv :: "int option \<Rightarrow> int \<Rightarrow> py_error + rat" where
  "opt_truediv v d = (case v of None \<Rightarrow> Inl TypeError | Some n \<Rightarrow> py_truediv n d)"

text \<open>\<open>int(size * (requested / other_size))\<close>, the dimension that was not requested.\<close>

definition proportional :: "int \<Rightarrow> int option \<Rightarrow> int \<Rightarrow> py_error + int" where
  "proportional size' requested other_size =
     (case opt_truediv requested other_size of
        Inl e \<Rightarrow> Inl e
      | Inr ratio \<Rightarrow> Inr (py_int (int_mul_float size' ratio)))"

text \<open>
  Lines 206 to 208: the size to resize to, or \<open>None\<close> when neither \<open>width\<close> nor \<open>height\<close> is
  given.
  \<^verbatim>\<open>target_w = width or int(base_img.width * (height / base_img.height))\<close>
  \<^verbatim>\<open>target_h = height or int(base_img.height * (width / base_img.width))\<close>
\<close>

definition resize_target :: "image \<Rightarrow> int option \<Rightarrow> int option \<Rightarrow> py_error + (int \<times> int) option" where
  "resize_target base_img width height =
     (if truthy width \<or> truthy height then
        (case py_or width (proportional (int (img_width base_img)) height (int (img_height base_img))) of
           Inl e \<Rightarrow> Inl e
         | Inr target_w \<Rightarrow>
             (case py_or height (proportional (int (img_height base_img)) width (int (img_width base_img))) of
                Inl e \<Rightarrow> Inl e
              | Inr target_h \<Rightarrow> Inr (Some (target_w, target_h))))
      else Inr None)"

text \<open>\<open>composed.convert("RGB")\<close>: an image without transparency.\<close>

definition convert_rgb_image :: "image \<Rightarrow> image" where
  "convert_rgb_image im =
     im\<lparr>img_pixels := map (map (\<lambda>p. RGBA (px_r p) (px_g p) (px_b p) 255)) (img_pixels im)\<rparr>"

text \<open>
  The pipeline, from the opened image to the image that is saved. Opening and saving
  are the caller's; the library functions are parameters.
\<close>

definition process ::
  "'a cv2_scheme \<Rightarrow> detector \<Rightarrow> rasteriser \<Rightarrow> resampler \<Rightarrow> image \<Rightarrow> int option \<Rightarrow> int option
     \<Rightarrow> py_error + image" where
  "process cv detectMultiScale polygon resize base_img width height =
     (case resize_target base_img width height of
        Inl e \<Rightarrow> Inl e
      | Inr target \<Rightarrow>
     (case (case target of None \<Rightarrow> Inr base_img | Some wh \<Rightarrow> resize base_img wh) of
        Inl e \<Rightarrow> Inl e
      | Inr base_img \<Rightarrow>
     (case remove_background_keep_subject cv base_img of
        Inl e \<Rightarrow> Inl e
      | Inr subject \<Rightarrow>
     (case generate_linkedin_gradient_background (int (img_width subject)) (int (img_height subject))
             default_top_color default_bottom_color of
        Inl e \<Rightarrow> Inl e
      | Inr bg \<Rightarrow>
     (case compose_subject_on_background resize subject bg of
        Inl e \<Rightarrow> Inl e
      | Inr composed \<Rightarrow>
     (case detect_primary_face_bbox cv detectMultiScale (convert_rgb_image composed) of
        Inl e \<Rightarrow> Inl e
      | Inr face_box \<Rightarrow>
          (let (s, with_tie) = draw_tie polygon [composed] 0 face_box
           in Inr (s ! with_tie))))))))"

section \<open>Stand-ins for the libraries\<close>

text \<open>
  The theorems hold for every OpenCV, detector, rasteriser and resampler. To run the
  model on a concrete input one of each is needed; these are the simplest: an OpenCV
  whose colour conversions raise \<open>cv2.error\<close> on an empty array, as the library's do, and
  otherwise change nothing, whose filters change nothing and whose \<open>inRange\<close> selects no
  pixel; a rasteriser that fills the whole image; and a resampler that answers with a
  uniform image of the requested size.
\<close>

definition plain_cvtColor :: "rgb list list \<Rightarrow> (rgb \<Rightarrow> 'a) \<Rightarrow> py_error + 'a list list" where
  "plain_cvtColor a code = (if a = [] \<or> hd a = [] then Inl cv2_error else Inr (map (map code) a))"

definition plain_cv2 :: cv2 where
  "plain_cv2 =
     \<lparr>cvtColor_RGB2BGR = (\<lambda>a. plain_cvtColor a (\<lambda>p. p)),
      cvtColor_BGR2HSV = (\<lambda>a. plain_cvtColor a (\<lambda>p. p)),
      cvtColor_RGB2GRAY = (\<lambda>a. plain_cvtColor a rgb_g),
      inRange = (\<lambda>a lower upper. Inr (map (map (\<lambda>p. 0)) a)),
      bitwise_or = (\<lambda>m1 m2. if map length m1 = map length m2
                             then Inr (map2 (map2 (\<lambda>a b. or a b)) m1 m2) else Inl cv2_error),
      getStructuringElement = (\<lambda>shape ksize. Inr (replicate (snd ksize) (replicate (fst ksize) 1))),
      morphologyEx = (\<lambda>m op kernel iterations. Inr m),
      dilate = (\<lambda>m kernel iterations. Inr m),
      bitwise_not = (\<lambda>m. Inr (map (map not) m)),
      GaussianBlur = (\<lambda>m ksize sigma. Inr m)\<rparr>"

definition flood :: rasteriser where
  "flood im xy fill outline = im\<lparr>img_pixels := map (map (\<lambda>p. fill)) (img_pixels im)\<rparr>"

definition uniform_resize :: "pixel \<Rightarrow> resampler" where
  "uniform_resize p im wh =
     Inr \<lparr>img_width = nat (fst wh), img_height = nat (snd wh),
          img_pixels = replicate (nat (snd wh)) (replicate (nat (fst wh)) p)\<rparr>"

section \<open>Rounding: the facts the proofs use\<close>

lemma rne_half: "\<bar>of_int (rne x) - x\<bar> \<le> 1/2"
  unfolding rne_def Let_def by (auto simp: abs_if; linarith)

lemma rne_eqI:
  assumes "\<bar>x - of_int k\<bar> < 1/2"
  shows "rne x = k"
proof (cases "of_int k \<le> x")
  case True
  with assms have "\<lfloor>x\<rfloor> = k" by (intro floor_unique) (auto simp: abs_if split: if_splits)
  with assms True show ?thesis by (simp add: rne_def Let_def abs_if split: if_splits)
next
  case False
  with assms have "\<lfloor>x\<rfloor> = k - 1" by (intro floor_unique) (auto simp: abs_if split: if_splits)
  with assms False show ?thesis by (simp add: rne_def Let_def abs_if split: if_splits)
qed

lemma rne_of_int [simp]: "rne (of_int k) = k"
  by (rule rne_eqI) simp

lemma two_powi_pos [simp]: "0 < (2::rat) powi e"
  by (simp add: power_int_def)

lemma two_powi_mono: "a \<le> b \<Longrightarrow> (2::rat) powi a \<le> 2 powi b"
  by (rule power_int_increasing) simp_all

lemma two_powi_less_cancel: "(2::rat) powi a < 2 powi b \<Longrightarrow> a < b"
  using two_powi_mono [of b a] by (cases "a < b") auto

lemma two_powi_Suc: "(2::rat) powi (e + 1) = 2 * 2 powi e"
  by (simp add: power_int_add)

lemma bitlen_lower: "0 < p \<Longrightarrow> (2::rat) powi (bitlen p - 1) \<le> of_int p"
proof -
  assume p: "0 < p"
  then have "2 ^ nat (bitlen p - 1) \<le> p" using bitlen_bounds by blast
  then have "(of_int (2 ^ nat (bitlen p - 1)) :: rat) \<le> of_int p" by (simp only: of_int_le_iff)
  moreover have "0 \<le> bitlen p - 1" using p bitlen_eq_zero_iff [of p] bitlen_nonneg [of p] by linarith
  ultimately show ?thesis by (simp add: power_int_def)
qed

lemma bitlen_upper: "0 < p \<Longrightarrow> of_int p < (2::rat) powi (bitlen p)"
proof -
  assume p: "0 < p"
  then have "p < 2 ^ nat (bitlen p)" using bitlen_bounds by blast
  then have "(of_int p :: rat) < of_int (2 ^ nat (bitlen p))" by (simp only: of_int_less_iff)
  then show ?thesis using bitlen_nonneg [of p] by (simp add: power_int_def)
qed

lemma ilog2_bounds:
  assumes "0 < x"
  shows "2 powi (ilog2 x) \<le> x \<and> x < 2 powi (ilog2 x + 1)"
proof -
  obtain p q where pq: "quotient_of x = (p, q)" by (cases "quotient_of x")
  then have q: "0 < q" and x: "x = of_int p / of_int q"
    by (auto dest: quotient_of_denom_pos quotient_of_div)
  with assms have p: "0 < p" by (simp add: zero_less_divide_iff)
  define e where "e = bitlen p - bitlen q"
  have lo: "2 powi (e - 1) \<le> x"
  proof -
    have "2 powi (e - 1) * of_int q \<le> (2::rat) powi (e - 1) * 2 powi (bitlen q)"
      using bitlen_upper [OF q] by simp
    also have "\<dots> = 2 powi (bitlen p - 1)"
      by (simp add: e_def flip: power_int_add)
    also have "\<dots> \<le> of_int p" by (rule bitlen_lower [OF p])
    finally show ?thesis using q by (simp add: x pos_le_divide_eq)
  qed
  have hi: "x < 2 powi (e + 1)"
  proof -
    have "of_int p < (2::rat) powi (bitlen p)" by (rule bitlen_upper [OF p])
    also have "\<dots> = 2 powi (e + 1) * 2 powi (bitlen q - 1)"
      by (simp add: e_def flip: power_int_add)
    also have "\<dots> \<le> 2 powi (e + 1) * of_int q"
      using bitlen_lower [OF q] by simp
    finally show ?thesis using q by (simp add: x pos_divide_less_eq)
  qed
  have il: "ilog2 x = (if 2 powi e \<le> x then e else e - 1)"
    by (simp add: ilog2_def pq e_def Let_def)
  show ?thesis
  proof (cases "2 powi e \<le> x")
    case True
    with il hi show ?thesis by simp
  next
    case False
    with il lo show ?thesis by simp
  qed
qed

lemma ilog2_eqI:
  assumes "2 powi e \<le> x" "x < 2 powi (e + 1)"
  shows "ilog2 x = e"
proof -
  have x: "0 < x" using assms(1) two_powi_pos [of e] by linarith
  note b = ilog2_bounds [OF x]
  have "2 powi e < (2::rat) powi (ilog2 x + 1)" using assms(1) b by linarith
  then have 1: "e < ilog2 x + 1" by (rule two_powi_less_cancel)
  have "2 powi (ilog2 x) < (2::rat) powi (e + 1)" using assms(2) b by linarith
  then have 2: "ilog2 x < e + 1" by (rule two_powi_less_cancel)
  from 1 2 show ?thesis by linarith
qed

lemma fl_round_pos:
  "0 < x \<Longrightarrow> fl_round p x =
     of_int (rne (x / 2 powi (ilog2 x - (int p - 1)))) * 2 powi (ilog2 x - (int p - 1))"
  by (simp add: fl_round_def Let_def)

lemma fl_round_eqI:
  assumes "2 powi e \<le> x" "x < 2 powi (e + 1)"
    and "rne (x / 2 powi (e - (int p - 1))) = k"
  shows "fl_round p x = of_int k * 2 powi (e - (int p - 1))"
proof -
  have x: "0 < x" using assms(1) two_powi_pos [of e] by linarith
  have "ilog2 x = e" using assms(1,2) by (rule ilog2_eqI)
  with x assms(3) show ?thesis by (simp add: fl_round_pos)
qed

lemma fl_round_error:
  assumes "0 < x"
  shows "\<bar>fl_round p x - x\<bar> \<le> x * 2 powi (- int p)"
proof -
  define e where "e = ilog2 x"
  define q :: rat where "q = 2 powi (e - (int p - 1))"
  have q: "0 < q" by (simp add: q_def)
  have "\<bar>of_int (rne (x / q)) - x / q\<bar> \<le> 1/2" by (rule rne_half)
  then have "\<bar>of_int (rne (x / q)) - x / q\<bar> * q \<le> 1/2 * q"
    using q by (simp only: mult_le_cancel_right_pos)
  moreover have "\<bar>of_int (rne (x / q)) - x / q\<bar> * q = \<bar>of_int (rne (x / q)) * q - x\<bar>"
  proof -
    have "of_int (rne (x / q)) * q - x = (of_int (rne (x / q)) - x / q) * q"
      using q by (simp add: field_simps)
    then show ?thesis using q by (simp add: abs_mult)
  qed
  ultimately have "\<bar>of_int (rne (x / q)) * q - x\<bar> \<le> 1/2 * q"
    by (simp only:)
  moreover have "fl_round p x = of_int (rne (x / q)) * q"
    using assms by (simp add: fl_round_pos q_def e_def)
  ultimately have 1: "\<bar>fl_round p x - x\<bar> \<le> q / 2"
    by simp
  have "q / 2 = 2 powi e * 2 powi (- int p)"
    by (simp add: q_def power_int_diff power_int_add power_int_minus field_simps)
  also have "\<dots> \<le> x * 2 powi (- int p)"
    using ilog2_bounds [OF assms] by (simp add: e_def)
  finally show ?thesis using 1 by linarith
qed

lemma two_powi_diff_nat: "n \<le> p \<Longrightarrow> (2::rat) powi (int n - int p) = 1 / 2 ^ (p - n)"
  by (simp add: power_int_diff power_diff field_simps)

lemma fl_round_scaled_int:
  assumes e: "2 powi e \<le> x" "x < 2 powi (e + 1)"
    and q: "(2::rat) powi (e - (int p - 1)) = 1 / 2 ^ j"
    and near: "\<bar>x - of_int m\<bar> * 2 ^ j < 1/2"
  shows "fl_round p x = of_int m"
proof -
  have "\<bar>x * 2 ^ j - of_int (m * 2 ^ j)\<bar> = \<bar>x - of_int m\<bar> * 2 ^ j"
  proof -
    have "x * 2 ^ j - of_int (m * 2 ^ j) = (x - of_int m) * 2 ^ j"
      by (simp add: algebra_simps)
    then show ?thesis by (simp add: abs_mult)
  qed
  with near have "rne (x * 2 ^ j) = m * 2 ^ j"
    by (intro rne_eqI) simp
  moreover have "x / 2 powi (e - (int p - 1)) = x * 2 ^ j"
    by (simp only: q) simp
  ultimately have "rne (x / 2 powi (e - (int p - 1))) = m * 2 ^ j"
    by (simp only:)
  from fl_round_eqI [OF e this] have "fl_round p x = of_int (m * 2 ^ j) * (1 / 2 ^ j)"
    by (simp only: q)
  then show ?thesis by simp
qed

lemma fl_round_near_int:
  assumes m: "1 \<le> m" "m < 2 ^ p"
    and lo: "of_int m * (1 - 2 powi (- int p - 1)) < x"
    and hi: "x \<le> of_int m * (1 + 2 powi (- int p - 1))"
  shows "fl_round p x = of_int m"
proof -
  define n where "n = nat (bitlen m - 1)"
  have bl: "1 \<le> bitlen m" using m(1) bitlen_eq_zero_iff [of m] bitlen_nonneg [of m] by linarith
  have n1: "2 ^ n \<le> m" using bitlen_bounds [of m] m(1) by (simp add: n_def)
  have "nat (bitlen m) = Suc n" using bl by (simp add: n_def)
  then have n2: "m < 2 ^ Suc n" using bitlen_bounds [of m] m(1) by simp
  have "(2::int) ^ n < 2 ^ p" using n1 m(2) by linarith
  then have np: "n < p" by simp
  define k where "k = p - 1 - n"
  have pk: "p = Suc (n + k)" using np by (simp add: k_def)
  define d :: rat where "d = of_int m / 2 ^ Suc p"
  have dpow: "(2::rat) powi (- int p - 1) = 1 / 2 ^ Suc p"
    by (simp add: power_int_diff power_int_minus field_simps)
  have xlo: "of_int m - d < x" using lo by (simp add: dpow d_def algebra_simps)
  have xhi: "x \<le> of_int m + d" using hi by (simp add: dpow d_def algebra_simps)
  have mr1: "(2::rat) ^ n \<le> of_int m"
    using n1 by (metis of_int_le_iff of_int_numeral of_int_power)
  have mr2: "(of_int m :: rat) + 1 \<le> 2 ^ Suc n"
  proof -
    have "m + 1 \<le> 2 ^ Suc n" using n2 by linarith
    then have "(of_int (m + 1) :: rat) \<le> of_int (2 ^ Suc n)" by (simp only: of_int_le_iff)
    then show ?thesis by simp
  qed
  have d0: "d * 2 ^ k < 1/2"
  proof -
    have "d * 2 ^ k = of_int m / 2 ^ Suc (Suc n)"
      by (simp add: d_def pk power_add field_simps)
    also have "\<dots> < 2 ^ Suc n / 2 ^ Suc (Suc n)"
      using mr2 by (simp add: divide_strict_right_mono)
    also have "\<dots> = 1/2" by simp
    finally show ?thesis .
  qed
  have dhalf: "d < 1/2"
  proof -
    have "0 \<le> d" using m(1) by (simp add: d_def)
    then have "d * 1 \<le> d * 2 ^ k" by (intro mult_left_mono) simp_all
    with d0 show ?thesis by simp
  qed
  show ?thesis
  proof (cases "2 ^ n \<le> x")
    case True
    have e1: "2 powi (int n) \<le> x" using True by simp
    have e2: "x < 2 powi (int n + 1)"
    proof -
      have "x < of_int m + 1" using xhi dhalf by linarith
      also have "\<dots> \<le> 2 ^ Suc n" by (rule mr2)
      finally show ?thesis by (simp add: power_int_add)
    qed
    have q: "(2::rat) powi (int n - (int p - 1)) = 1 / 2 ^ k"
    proof -
      have "int n - (int p - 1) = int n - int (n + k)" by (simp add: pk)
      then show ?thesis using two_powi_diff_nat [of n "n + k"] by simp
    qed
    have "\<bar>x - of_int m\<bar> \<le> d" using xlo xhi by (simp add: abs_if)
    then have "\<bar>x - of_int m\<bar> * 2 ^ k \<le> d * 2 ^ k" by (simp add: mult_right_mono)
    with d0 have near: "\<bar>x - of_int m\<bar> * 2 ^ k < 1/2" by linarith
    from fl_round_scaled_int [OF e1 e2 q near] show ?thesis .
  next
    case False
    then have xn: "x < 2 ^ n" by simp
    have "of_int m < (2::rat) ^ n + 1" using xlo xn dhalf by linarith
    then have "(of_int m :: rat) < of_int (2 ^ n + 1)" by simp
    then have "m < 2 ^ n + 1" by (simp only: of_int_less_iff)
    with n1 have meq: "m = 2 ^ n" by linarith
    have dB: "d * 2 ^ Suc k = 1/2"
      by (simp add: d_def pk meq power_add field_simps)
    have d4: "d \<le> of_int m / 4"
    proof -
      have "(2::rat) ^ 2 \<le> 2 ^ Suc p" by (intro power_increasing) (simp_all add: pk)
      then have "(4::rat) \<le> 2 ^ Suc p" by simp
      moreover have "(0::rat) \<le> of_int m" using m(1) by simp
      ultimately show ?thesis unfolding d_def by (intro divide_left_mono) simp_all
    qed
    have e1: "2 powi (int n - 1) \<le> x"
    proof -
      have A: "(2::rat) powi (int n - 1) = 2 ^ n / 2" by (simp add: power_int_diff)
      have B: "(of_int m :: rat) = 2 ^ n" by (simp add: meq)
      have C: "(0::rat) < 2 ^ n" by simp
      from xlo d4 C show ?thesis unfolding A B by linarith
    qed
    have e2: "x < 2 powi (int n - 1 + 1)" using xn by simp
    have q: "(2::rat) powi (int n - 1 - (int p - 1)) = 1 / 2 ^ Suc k"
    proof -
      have "int n - 1 - (int p - 1) = int n - int (Suc (n + k))" by (simp add: pk)
      then show ?thesis using two_powi_diff_nat [of n "Suc (n + k)"] by simp
    qed
    have "(of_int m :: rat) = 2 ^ n" by (simp add: meq)
    with xlo xn have "\<bar>x - of_int m\<bar> < d" by (simp add: abs_if)
    then have "\<bar>x - of_int m\<bar> * 2 ^ Suc k < d * 2 ^ Suc k"
      by (simp only: mult_strict_right_mono zero_less_power zero_less_numeral)
    with dB have near: "\<bar>x - of_int m\<bar> * 2 ^ Suc k < 1/2" by linarith
    from fl_round_scaled_int [OF e1 e2 q near] show ?thesis .
  qed
qed


lemma rnd64_zero [simp]: "rnd64 0 = 0"
  by (simp add: rnd64_def fl_round_def)

lemma rnd32_zero [simp]: "rnd32 0 = 0"
  by (simp add: rnd32_def fl_round_def)

lemma fl_round_of_int:
  assumes "0 \<le> m" "m < 2 ^ p"
  shows "fl_round p (of_int m) = of_int m"
proof (cases "m = 0")
  case True
  then show ?thesis by (simp add: fl_round_def)
next
  case False
  with assms have m: "1 \<le> m" by linarith
  have u: "(0::rat) < 2 powi (- int p - 1)" by simp
  have "(0::rat) < of_int m" using m by simp
  then have "(0::rat) < of_int m * 2 powi (- int p - 1)" using u by (intro mult_pos_pos)
  then have "of_int m * (1 - 2 powi (- int p - 1)) < (of_int m :: rat)"
    and "(of_int m :: rat) \<le> of_int m * (1 + 2 powi (- int p - 1))"
    by (simp_all add: algebra_simps)
  with m assms(2) show ?thesis by (intro fl_round_near_int)
qed

lemma py_float_exact: "0 \<le> n \<Longrightarrow> n < 2 ^ 53 \<Longrightarrow> py_float n = of_int n"
  unfolding py_float_def rnd64_def by (rule fl_round_of_int)

lemma np_float32_exact: "0 \<le> n \<Longrightarrow> n < 2 ^ 24 \<Longrightarrow> np_float32 n = of_int n"
  unfolding np_float32_def rnd32_def by (rule fl_round_of_int)

lemma py_int_of_int [simp]: "py_int (of_int k) = k"
  by (simp add: py_int_def)

lemma py_int_zero [simp]: "py_int 0 = 0"
  by (simp add: py_int_def)

lemma py_int_floor: "of_int m \<le> x \<Longrightarrow> x < of_int m + 1 \<Longrightarrow> 0 \<le> m \<Longrightarrow> py_int x = m"
proof -
  assume a: "of_int m \<le> x" "x < of_int m + 1" "0 \<le> m"
  then have "\<lfloor>x\<rfloor> = m" by (intro floor_unique) simp_all
  moreover have "0 \<le> x" using a by (meson of_int_0_le_iff order_trans)
  ultimately show ?thesis by (simp add: py_int_def)
qed

text \<open>
  The product of a non-negative integer and the double nearest to a fraction \<open>a / b\<close>,
  truncated, is the integer quotient \<open>(a * n) div b\<close>, provided the double is within the
  relative distance \<open>2 powi (- 54)\<close> of the fraction and the product stays below \<open>2 ^ 50\<close>.
\<close>

lemma py_int_scaled:
  fixes n a b :: int and c :: rat
  assumes n: "0 \<le> n" and a: "0 < a" and b: "0 < b" and an: "a * n < 2 ^ 50"
    and clo: "of_int a / of_int b * (1 - 2 powi (- 54)) < c"
    and chi: "c \<le> of_int a / of_int b * (1 + 2 powi (- 54))"
  shows "py_int (rnd64 (of_int n * c)) = (a * n) div b"
proof (cases "n = 0")
  case True
  then show ?thesis by simp
next
  case False
  with n have npos: "0 < n" by linarith
  define N where "N = a * n"
  define m where "m = N div b"
  define r where "r = N mod b"
  define x :: rat where "x = of_int N / of_int b"
  define x' :: rat where "x' = of_int n * c"
  define u :: rat where "u = 2 powi (- 54)"
  have u: "0 < u" "u = 1 / 2 ^ 54" by (simp_all add: u_def power_int_minus field_simps)
  have Npos: "0 < N" using a npos by (simp add: N_def)
  have N50: "N < 2 ^ 50" using an by (simp add: N_def)
  have Nr: "(of_int N :: rat) = of_int a * of_int n" by (simp add: N_def)
  have anr: "(0::rat) < of_int N" using Npos by (simp only: of_int_0_less_iff)
  have br: "(0::rat) < of_int b" using b by simp
  have nr: "(0::rat) < of_int n" using npos by simp
  have xpos: "0 < x" unfolding x_def using anr br by (rule divide_pos_pos)
  have mr: "N = m * b + r" "0 \<le> r" "r < b" using b by (simp_all add: m_def r_def)
  have m0: "0 \<le> m" using Npos b by (simp add: m_def pos_imp_zdiv_nonneg_iff)
  have "(of_int N :: rat) = of_int m * of_int b + of_int r"
    by (metis mr(1) of_int_add of_int_mult)
  then have xeq: "x = of_int m + of_int r / of_int b"
    using br by (simp add: x_def add_divide_distrib)
  have x_le: "x \<le> of_int N"
  proof -
    have "(1::rat) \<le> of_int b" using b by simp
    then have "of_int N / of_int b \<le> of_int N / (1::rat)"
      using anr by (intro divide_left_mono) simp_all
    then show ?thesis by (simp add: x_def)
  qed
  have N50r: "(of_int N :: rat) < 2 ^ 50"
  proof -
    have "(of_int N :: rat) < of_int (2 ^ 50)" using N50 by (simp only: of_int_less_iff)
    then show ?thesis by simp
  qed
  have x50: "x < 2 ^ 50" using x_le N50r by linarith
  have xalt: "x = of_int a / of_int b * of_int n" by (simp add: x_def Nr)
  have lo: "x * (1 - u) < x'"
  proof -
    have "of_int a / of_int b * (1 - u) * of_int n < c * of_int n"
      using clo nr unfolding u_def by (rule mult_strict_right_mono)
    then show ?thesis by (simp add: xalt x'_def algebra_simps)
  qed
  have hi: "x' \<le> x * (1 + u)"
  proof -
    have "0 \<le> (of_int n :: rat)" using nr by simp
    with chi have "c * of_int n \<le> of_int a / of_int b * (1 + u) * of_int n"
      unfolding u_def by (rule mult_right_mono)
    then show ?thesis by (simp add: xalt x'_def algebra_simps)
  qed
  show ?thesis
  proof (cases "r = 0")
    case True
    then have xm: "x = of_int m" by (simp add: xeq)
    have m1: "1 \<le> m" using xpos xm by simp
    have "(of_int m :: rat) < of_int (2 ^ 53)" using x50 xm by simp
    then have m53: "m < 2 ^ 53" by (simp only: of_int_less_iff)
    have "of_int m * (1 - 2 powi (- int 53 - 1)) < x'" using lo by (simp add: xm u_def)
    moreover have "x' \<le> of_int m * (1 + 2 powi (- int 53 - 1))" using hi by (simp add: xm u_def)
    ultimately have "fl_round 53 x' = of_int m" using m1 m53 by (intro fl_round_near_int)
    then show ?thesis by (simp add: rnd64_def x'_def m_def N_def)
  next
    case False
    define w :: rat where "w = x * u"
    define ib :: rat where "ib = 1 / of_int b"
    define R :: rat where "R = rnd64 x'"
    have w0: "0 < w" unfolding w_def using xpos u(1) by (rule mult_pos_pos)
    have x'pos: "0 < x'"
    proof -
      have "u < 1" by (simp add: u(2))
      then have "0 < x * (1 - u)" using xpos by simp
      with lo show ?thesis by linarith
    qed
    have l1: "x - w < x'" using lo by (simp add: w_def algebra_simps)
    have h1: "x' \<le> x + w" using hi by (simp add: w_def algebra_simps)
    have err: "\<bar>R - x'\<bar> \<le> x' * (2 * u)"
    proof -
      have e53: "(2::rat) powi (- int 53) = 2 * u" by (simp add: u(2) power_int_minus field_simps)
      from fl_round_error [OF x'pos, of 53] show ?thesis unfolding R_def rnd64_def e53 .
    qed
    have x'u: "x' * u \<le> 2 * w"
    proof -
      have "x' * u \<le> (x + w) * u" using h1 u(1) by (simp add: mult_right_mono)
      also have "\<dots> = w + w * u" by (simp add: w_def algebra_simps)
      also have "\<dots> \<le> w + w * 1"
      proof -
        have "u \<le> 1" by (simp add: u(2))
        then have "w * u \<le> w * 1" using w0 by (intro mult_left_mono) simp_all
        then show ?thesis by simp
      qed
      finally show ?thesis by simp
    qed
    have Rlo: "x - 5 * w < R" and Rhi: "R \<le> x + 5 * w"
      using err x'u l1 h1 by (simp_all add: abs_le_iff algebra_simps)
    have wb: "16 * w < ib"
    proof -
      have "w * of_int b = of_int N * u" using br by (simp add: w_def x_def)
      also have "\<dots> < 2 ^ 50 * u" using N50r u(1) by (rule mult_strict_right_mono)
      also have "\<dots> = 1 / 16" by (simp add: u(2))
      finally have "w * of_int b < 1 / 16" .
      then have "w < 1 / 16 / of_int b" using br by (simp add: pos_less_divide_eq)
      then show ?thesis by (simp add: ib_def)
    qed
    have r1: "1 \<le> r" "r \<le> b - 1" using False mr by linarith+
    have rb_lo: "ib \<le> of_int r / of_int b"
    proof -
      have "(1::rat) \<le> of_int r" using r1 by simp
      then show ?thesis using br by (simp add: ib_def divide_right_mono)
    qed
    have rb_hi: "of_int r / of_int b \<le> 1 - ib"
    proof -
      have "(of_int r :: rat) \<le> of_int b - 1" using r1 by (metis of_int_1 of_int_diff of_int_le_iff)
      then have "(of_int r :: rat) / of_int b \<le> (of_int b - 1) / of_int b"
        using br by (simp add: divide_right_mono)
      also have "\<dots> = 1 - ib" using br by (simp add: ib_def diff_divide_distrib)
      finally show ?thesis .
    qed
    have "of_int m \<le> R" using Rlo wb rb_lo w0 unfolding xeq by linarith
    moreover have "R < of_int m + 1" using Rhi wb rb_hi w0 unfolding xeq by linarith
    ultimately have "py_int R = m" using m0 by (rule py_int_floor)
    then show ?thesis by (simp add: R_def x'_def m_def N_def)
  qed
qed

lemma int_of_scaled_exact:
  fixes n a b :: int
  assumes "0 \<le> n" "n < 2 ^ 53" "0 < a" "0 < b" "a * n < 2 ^ 50"
    and "of_int a / of_int b * (1 - 2 powi (- 54)) < py_lit (of_int a / of_int b)"
    and "py_lit (of_int a / of_int b) \<le> of_int a / of_int b * (1 + 2 powi (- 54))"
  shows "int_of_scaled n (of_int a / of_int b) = (a * n) div b"
  unfolding int_of_scaled_def int_mul_float_def
  using assms by (simp only: py_float_exact py_int_scaled)

text \<open>
  The decimal literals of \<open>draw_tie\<close> whose products the theorems below need exactly:
  each is read as a double within the relative distance \<open>2 powi (- 54)\<close> of the decimal.
\<close>

lemma lit_42_100:
  "of_int 42 / of_int 100 * (1 - 2 powi (- 54)) < py_lit (of_int 42 / of_int 100)
   \<and> py_lit (of_int 42 / of_int 100) \<le> of_int 42 / of_int 100 * (1 + 2 powi (- 54))"
  unfolding py_lit_def rnd64_def by code_simp

lemma scaled_42_100:
  assumes "0 \<le> n" "n < 2 ^ 31"
  shows "int_of_scaled n (42 / 100) = (42 * n) div 100"
proof -
  have "42 * n < 2 ^ 50" "n < 2 ^ 53" using assms by simp_all
  with assms(1) lit_42_100 int_of_scaled_exact [of n 42 100] show ?thesis by simp
qed

lemma lit_22_100:
  "of_int 22 / of_int 100 * (1 - 2 powi (- 54)) < py_lit (of_int 22 / of_int 100)
   \<and> py_lit (of_int 22 / of_int 100) \<le> of_int 22 / of_int 100 * (1 + 2 powi (- 54))"
  unfolding py_lit_def rnd64_def by code_simp

lemma scaled_22_100:
  assumes "0 \<le> n" "n < 2 ^ 31"
  shows "int_of_scaled n (22 / 100) = (22 * n) div 100"
proof -
  have "22 * n < 2 ^ 50" "n < 2 ^ 53" using assms by simp_all
  with assms(1) lit_22_100 int_of_scaled_exact [of n 22 100] show ?thesis by simp
qed

lemma lit_12_100:
  "of_int 12 / of_int 100 * (1 - 2 powi (- 54)) < py_lit (of_int 12 / of_int 100)
   \<and> py_lit (of_int 12 / of_int 100) \<le> of_int 12 / of_int 100 * (1 + 2 powi (- 54))"
  unfolding py_lit_def rnd64_def by code_simp

lemma scaled_12_100:
  assumes "0 \<le> n" "n < 2 ^ 31"
  shows "int_of_scaled n (12 / 100) = (12 * n) div 100"
proof -
  have "12 * n < 2 ^ 50" "n < 2 ^ 53" using assms by simp_all
  with assms(1) lit_12_100 int_of_scaled_exact [of n 12 100] show ?thesis by simp
qed

lemma lit_16_100:
  "of_int 16 / of_int 100 * (1 - 2 powi (- 54)) < py_lit (of_int 16 / of_int 100)
   \<and> py_lit (of_int 16 / of_int 100) \<le> of_int 16 / of_int 100 * (1 + 2 powi (- 54))"
  unfolding py_lit_def rnd64_def by code_simp

lemma scaled_16_100:
  assumes "0 \<le> n" "n < 2 ^ 31"
  shows "int_of_scaled n (16 / 100) = (16 * n) div 100"
proof -
  have "16 * n < 2 ^ 50" "n < 2 ^ 53" using assms by simp_all
  with assms(1) lit_16_100 int_of_scaled_exact [of n 16 100] show ?thesis by simp
qed

lemma lit_20_100:
  "of_int 20 / of_int 100 * (1 - 2 powi (- 54)) < py_lit (of_int 20 / of_int 100)
   \<and> py_lit (of_int 20 / of_int 100) \<le> of_int 20 / of_int 100 * (1 + 2 powi (- 54))"
  unfolding py_lit_def rnd64_def by code_simp

lemma scaled_20_100:
  assumes "0 \<le> n" "n < 2 ^ 31"
  shows "int_of_scaled n (20 / 100) = (20 * n) div 100"
proof -
  have "20 * n < 2 ^ 50" "n < 2 ^ 53" using assms by simp_all
  with assms(1) lit_20_100 int_of_scaled_exact [of n 20 100] show ?thesis by simp
qed

lemma lit_12_10:
  "of_int 12 / of_int 10 * (1 - 2 powi (- 54)) < py_lit (of_int 12 / of_int 10)
   \<and> py_lit (of_int 12 / of_int 10) \<le> of_int 12 / of_int 10 * (1 + 2 powi (- 54))"
  unfolding py_lit_def rnd64_def by code_simp

lemma scaled_12_10:
  assumes "0 \<le> n" "n < 2 ^ 31"
  shows "int_of_scaled n (12 / 10) = (12 * n) div 10"
proof -
  have "12 * n < 2 ^ 50" "n < 2 ^ 53" using assms by simp_all
  with assms(1) lit_12_10 int_of_scaled_exact [of n 12 10] show ?thesis by simp
qed

lemma lit_16_10:
  "of_int 16 / of_int 10 * (1 - 2 powi (- 54)) < py_lit (of_int 16 / of_int 10)
   \<and> py_lit (of_int 16 / of_int 10) \<le> of_int 16 / of_int 10 * (1 + 2 powi (- 54))"
  unfolding py_lit_def rnd64_def by code_simp

lemma scaled_16_10:
  assumes "0 \<le> n" "n < 2 ^ 31"
  shows "int_of_scaled n (16 / 10) = (16 * n) div 10"
proof -
  have "16 * n < 2 ^ 50" "n < 2 ^ 53" using assms by simp_all
  with assms(1) lit_16_10 int_of_scaled_exact [of n 16 10] show ?thesis by simp
qed

section \<open>float32: a value divided and multiplied by 255\<close>

lemma rnd32_of_int: "0 \<le> m \<Longrightarrow> m < 2 ^ 24 \<Longrightarrow> rnd32 (of_int m) = of_int m"
  unfolding rnd32_def by (rule fl_round_of_int)

lemma rnd32_255 [simp]: "rnd32 255 = 255"
  using rnd32_of_int [of 255] by simp

lemma rnd32_1 [simp]: "rnd32 1 = 1"
  using rnd32_of_int [of 1] by simp

text \<open>
  Dividing an 8-bit value by 255 and multiplying the quotient by 255, both in \<open>float32\<close>,
  gives the value back. \<open>k\<close> locates the quotient: \<open>n / 255\<close> lies between \<open>2 powi (- k)\<close> and
  \<open>2 powi (1 - k)\<close>.
\<close>

lemma div_mul_255_core:
  fixes n :: int and k :: nat
  assumes lo: "256 \<le> n * 2 ^ k" and hi: "n * 2 ^ k \<le> 508"
  shows "rnd32 (rnd32 (of_int n / 255) * 255) = of_int n"
proof -
  define P :: rat where "P = of_int n * 2 ^ k"
  define x :: rat where "x = of_int n / 255"
  define K where "K = rne (x * 2 ^ (k + 23))"
  define D :: rat where "D = of_int K - x * 2 ^ (k + 23)"
  have P: "256 \<le> P" "P \<le> 508"
  proof -
    have "(of_int 256 :: rat) \<le> of_int (n * 2 ^ k)" using lo by (simp only: of_int_le_iff)
    then show "256 \<le> P" by (simp add: P_def)
    have "(of_int (n * 2 ^ k) :: rat) \<le> of_int 508" using hi by (simp only: of_int_le_iff)
    then show "P \<le> 508" by (simp add: P_def)
  qed
  have xk: "x * 2 ^ k = P / 255" by (simp add: x_def P_def)
  have pk: "(2::rat) powi (- int k) = 1 / 2 ^ k" by (simp add: power_int_minus field_simps)
  have x1: "2 powi (- int k) \<le> x"
  proof -
    have "1 \<le> x * 2 ^ k" using P by (simp add: xk)
    then show ?thesis by (simp add: pk field_simps)
  qed
  have x2: "x < 2 powi (- int k + 1)"
  proof -
    have p1: "(2::rat) powi (- int k + 1) = 2 / 2 ^ k" by (simp add: power_int_diff)
    have "x * 2 ^ k < 2" using P by (simp add: xk)
    then have "x < 2 / 2 ^ k" by (simp add: pos_less_divide_eq)
    then show ?thesis by (simp only: p1)
  qed
  have q: "(2::rat) powi (- int k - (int 24 - 1)) = 1 / 2 ^ (k + 23)"
  proof -
    have "- int k - (int 24 - 1) = - int (k + 23)" by simp
    then show ?thesis by (simp only: power_int_minus power_int_of_nat) (simp add: field_simps)
  qed
  have a: "rnd32 x = of_int K / 2 ^ (k + 23)"
  proof -
    have "rne (x / 2 powi (- int k - (int 24 - 1))) = K" by (simp only: q) (simp add: K_def)
    from fl_round_eqI [OF x1 x2 this] show ?thesis unfolding rnd32_def by (simp only: q) simp
  qed
  have Dh: "\<bar>D\<bar> \<le> 1/2" unfolding D_def K_def by (rule rne_half)
  define y :: rat where "y = rnd32 x * 255"
  have y: "y = of_int n + 255 * D / 2 ^ (k + 23)"
    unfolding y_def a D_def by (simp add: x_def field_simps)
  have yk: "y * 2 ^ k = P + 255 * D / 2 ^ 23"
    by (simp add: y P_def power_add field_simps)
  have D0: "P = 256 \<Longrightarrow> 0 \<le> D"
  proof -
    assume "P = 256"
    then have xv: "x * 2 ^ (k + 23) = 2 ^ 31 / 255" by (simp add: power_add xk)
    have "rne (2 ^ 31 / 255) = 8421505" by (rule rne_eqI) simp
    then show "0 \<le> D" by (simp add: D_def K_def xv)
  qed
  have y1: "2 powi (8 - int k) \<le> y"
  proof -
    have "256 \<le> y * 2 ^ k"
    proof (cases "257 \<le> n * 2 ^ k")
      case True
      then have "(of_int 257 :: rat) \<le> of_int (n * 2 ^ k)" by (simp only: of_int_le_iff)
      then have "257 \<le> P" by (simp add: P_def)
      moreover have "- 1 \<le> 255 * D / 2 ^ 23" using Dh by (simp add: abs_le_iff)
      ultimately show ?thesis unfolding yk by linarith
    next
      case False
      with lo have "n * 2 ^ k = 256" by linarith
      then have "(of_int (n * 2 ^ k) :: rat) = of_int 256" by (simp only:)
      then have "P = 256" by (simp add: P_def)
      with D0 have "0 \<le> 255 * D / 2 ^ 23" by simp
      with \<open>P = 256\<close> show ?thesis unfolding yk by linarith
    qed
    then show ?thesis by (simp add: power_int_diff field_simps)
  qed
  have y2: "y < 2 powi (8 - int k + 1)"
  proof -
    have "255 * D / 2 ^ 23 < 1" using Dh by (simp add: abs_le_iff)
    then have "y * 2 ^ k < 512" using P unfolding yk by linarith
    then show ?thesis by (simp add: power_int_diff power_int_add field_simps)
  qed
  have q': "(2::rat) powi (8 - int k - (int 24 - 1)) = 1 / 2 ^ (k + 15)"
  proof -
    have "8 - int k - (int 24 - 1) = - int (k + 15)" by simp
    then show ?thesis by (simp only: power_int_minus power_int_of_nat) (simp add: field_simps)
  qed
  have near: "\<bar>y - of_int n\<bar> * 2 ^ (k + 15) < 1/2"
  proof -
    have "(y - of_int n) * 2 ^ (k + 15) = 255 * D / 256"
      by (simp add: y power_add field_simps)
    then have "\<bar>(y - of_int n) * 2 ^ (k + 15)\<bar> = \<bar>255 * D / 256\<bar>"
      by (simp only:)
    moreover have "\<bar>(y - of_int n) * 2 ^ (k + 15)\<bar> = \<bar>y - of_int n\<bar> * 2 ^ (k + 15)"
      by (simp add: abs_mult)
    ultimately have "\<bar>y - of_int n\<bar> * 2 ^ (k + 15) = \<bar>255 * D / 256\<bar>"
      by (simp only:)
    also have "\<dots> < 1/2"
    proof -
      have "- (1/2) \<le> D" "D \<le> 1/2" using Dh by (simp_all add: abs_le_iff)
      then show ?thesis by (simp add: abs_less_iff)
    qed
    finally show ?thesis .
  qed
  from fl_round_scaled_int [OF y1 y2 q' near] show ?thesis
    by (simp add: rnd32_def y_def x_def)
qed

lemma div_mul_255:
  assumes "0 \<le> n" "n \<le> 255"
  shows "rnd32 (rnd32 (of_int n / 255) * 255) = of_int n"
proof -
  consider "n = 0" | "n = 255" | "128 \<le> n \<and> n \<le> 254" | "64 \<le> n \<and> n \<le> 127"
    | "32 \<le> n \<and> n \<le> 63" | "16 \<le> n \<and> n \<le> 31" | "8 \<le> n \<and> n \<le> 15"
    | "4 \<le> n \<and> n \<le> 7" | "2 \<le> n \<and> n \<le> 3" | "n = 1"
    using assms by linarith
  then show ?thesis
  proof cases
    case 1 then show ?thesis by simp
  next
    case 2 then show ?thesis by simp
  next
    case 3 then show ?thesis by (intro div_mul_255_core [of n 1]) simp_all
  next
    case 4 then show ?thesis by (intro div_mul_255_core [of n 2]) simp_all
  next
    case 5 then show ?thesis by (intro div_mul_255_core [of n 3]) simp_all
  next
    case 6 then show ?thesis by (intro div_mul_255_core [of n 4]) simp_all
  next
    case 7 then show ?thesis by (intro div_mul_255_core [of n 5]) simp_all
  next
    case 8 then show ?thesis by (intro div_mul_255_core [of n 6]) simp_all
  next
    case 9 then show ?thesis by (intro div_mul_255_core [of n 7]) simp_all
  next
    case 10 then show ?thesis by (intro div_mul_255_core [of n 8]) simp_all
  qed
qed

lemma alpha_of_mask_id: "alpha_of_mask m = m"
proof -
  have u: "0 \<le> uint m" "uint m \<le> 255" "uint m < 2 ^ 24"
    using uint_lt2p [of m] by simp_all
  have "np_float32 (uint m) = of_int (uint m)" using u by (intro np_float32_exact)
  then have "alpha_of_mask m = astype_uint8 (of_int (uint m))"
    using div_mul_255 [OF u(1,2)] by (simp add: alpha_of_mask_def)
  also have "\<dots> = word_of_int (uint m)"
    unfolding astype_uint8_def by (simp only: py_int_of_int)
  also have "\<dots> = m" by simp
  finally show ?thesis .
qed

section \<open>Properties of draw\_tie\<close>

lemma draw_tie_unfold:
  assumes "r < length s"
  shows "draw_tie polygon s r face_box =
     (let g = tie_layout (int (img_width (s ! r))) (int (img_height (s ! r))) face_box in
      (s @ [s ! r,
            polygon (polygon (polygon (s ! r) (knot_points g) navy (Some navy_dark))
                       (blade_points g) navy (Some navy_dark))
              (highlight_poly g) highlight None],
       Suc (length s)))"
  using assms
  by (simp add: draw_tie_def image_copy_def image_convert_rgba_def alloc_def draw_polygon_def
      Let_def nth_append list_update_append)

lemma tie_layout_None:
  "tie_layout w h None =
     (let face_height' = int_of_scaled h (22/100);
          knot_height' = max 12 (int_of_scaled face_height' (12/100));
          knot_width' = max 16 (int_of_scaled face_height' (16/100));
          tie_length' = max (int_of_scaled h (20/100)) (int_of_scaled face_height' (12/10));
          tie_bottom_width' = max 26 (int_of_scaled knot_width' (16/10));
          knot_top_y' = int_of_scaled h (42/100) + int_of_scaled face_height' (2/100);
          knot_bottom_y' = knot_top_y' + knot_height'
      in \<lparr>cx = w div 2, cy = int_of_scaled h (42/100), face_height = face_height',
          knot_height = knot_height', knot_width = knot_width', tie_length = tie_length',
          tie_bottom_width = tie_bottom_width', knot_top_y = knot_top_y',
          knot_bottom_y = knot_bottom_y', half_knot_w = knot_width' div 2,
          tip_y = min (h - 6) (knot_bottom_y' + tie_length'),
          blade_half_top = int_of_scaled knot_width' (6/10),
          blade_half_bottom = tie_bottom_width' div 2\<rparr>)"
  by (simp add: tie_layout_def Let_def)

text \<open>
  C4. With no face box, the tie is anchored at \<open>x = W div 2\<close> and
  \<open>y = \<lfloor>0.42 H\<rfloor>\<close>, the assumed face height is \<open>\<lfloor>0.22 H\<rfloor>\<close>, and the tie is drawn:
  the returned image is the copy of the input with the knot, the blade and the highlight
  polygons of that layout drawn on it.
\<close>

theorem fallback_geometry:
  assumes "r < length s" "img_height (s ! r) < 2 ^ 31"
  shows "(let W = int (img_width (s ! r)); H = int (img_height (s ! r));
              g = tie_layout W H None;
              (s', out) = draw_tie polygon s r None
          in cx g = W div 2 \<and> cy g = (42 * H) div 100 \<and> face_height g = (22 * H) div 100
             \<and> s' ! out =
                 polygon (polygon (polygon (s ! r) (knot_points g) navy (Some navy_dark))
                            (blade_points g) navy (Some navy_dark))
                   (highlight_poly g) highlight None)"
proof -
  define H where "H = int (img_height (s ! r))"
  have H: "0 \<le> H" "H < 2 ^ 31" using assms(2) by (simp_all add: H_def)
  have "cy (tie_layout W H None) = (42 * H) div 100" for W
    using scaled_42_100 [OF H] by (simp add: tie_layout_None Let_def)
  moreover have "face_height (tie_layout W H None) = (22 * H) div 100" for W
    using scaled_22_100 [OF H] by (simp add: tie_layout_None Let_def)
  moreover have "cx (tie_layout W H None) = W div 2" for W
    by (simp add: tie_layout_None Let_def)
  ultimately show ?thesis
    by (simp add: draw_tie_unfold [OF assms(1)] Let_def H_def nth_append)
qed

theorem fallback_geometry_witness:
  "(let im = \<lparr>img_width = 200, img_height = 100,
                 img_pixels = replicate 100 (replicate 200 (RGBA 0 0 0 255))\<rparr>;
        g = tie_layout 200 100 None
    in (0::nat) < length [im] \<and> img_height ([im] ! 0) < 2 ^ 31
       \<and> cx g = 100 \<and> cy g = 42 \<and> face_height g = 22)"
  using fallback_geometry [of 0
      "[\<lparr>img_width = 200, img_height = 100,
         img_pixels = replicate 100 (replicate 200 (RGBA 0 0 0 255))\<rparr>]"
      flood]
  by (simp add: Let_def split: prod.splits)

lemma tie_layout_Some:
  "tie_layout w h (Some fb) =
     (let face_height' = fb_height fb;
          knot_height' = max 12 (int_of_scaled face_height' (12/100));
          knot_width' = max 16 (int_of_scaled face_height' (16/100));
          tie_length' = max (int_of_scaled h (20/100)) (int_of_scaled face_height' (12/10));
          tie_bottom_width' = max 26 (int_of_scaled knot_width' (16/10));
          knot_top_y' = snd (center_bottom fb) + int_of_scaled face_height' (2/100);
          knot_bottom_y' = knot_top_y' + knot_height'
      in \<lparr>cx = fst (center_bottom fb), cy = snd (center_bottom fb), face_height = face_height',
          knot_height = knot_height', knot_width = knot_width', tie_length = tie_length',
          tie_bottom_width = tie_bottom_width', knot_top_y = knot_top_y',
          knot_bottom_y = knot_bottom_y', half_knot_w = knot_width' div 2,
          tip_y = min (h - 6) (knot_bottom_y' + tie_length'),
          blade_half_top = int_of_scaled knot_width' (6/10),
          blade_half_bottom = tie_bottom_width' div 2\<rparr>)"
  by (simp add: tie_layout_def Let_def)

lemma tie_dims_of_face_height:
  "knot_height (tie_layout w h face_box)
     = max 12 (int_of_scaled (face_height (tie_layout w h face_box)) (12/100))
   \<and> knot_width (tie_layout w h face_box)
     = max 16 (int_of_scaled (face_height (tie_layout w h face_box)) (16/100))
   \<and> tie_length (tie_layout w h face_box)
     = max (int_of_scaled h (20/100))
           (int_of_scaled (face_height (tie_layout w h face_box)) (12/10))
   \<and> tie_bottom_width (tie_layout w h face_box)
     = max 26 (int_of_scaled (knot_width (tie_layout w h face_box)) (16/10))"
  by (cases face_box) (simp_all add: tie_layout_None tie_layout_Some Let_def)

text \<open>
  C5, as the code has it. Knot height and knot width are \<open>12%\<close> and \<open>16%\<close> of the face
  height, not below 12 and 16 pixels; the blade's bottom width is \<open>1.6\<close> times the knot
  width, not below 26 pixels; the blade length is \<open>1.2\<close> times the face height, and its
  lower bound is \<open>20%\<close> of the image height, not a fixed number of pixels.
\<close>

theorem tie_dimensions:
  assumes "0 \<le> h" "h < 2 ^ 31"
    and "g = tie_layout w h face_box"
    and "0 \<le> face_height g" "face_height g < 2 ^ 31"
  shows "knot_height g = max 12 ((12 * face_height g) div 100)
       \<and> knot_width g = max 16 ((16 * face_height g) div 100)
       \<and> tie_length g = max ((20 * h) div 100) ((12 * face_height g) div 10)
       \<and> tie_bottom_width g = max 26 ((16 * knot_width g) div 10)
       \<and> 12 \<le> knot_height g"
proof -
  note d = tie_dims_of_face_height [of w h face_box, folded assms(3)]
  have fh: "0 \<le> face_height g" "face_height g < 2 ^ 31" by fact+
  have kw: "knot_width g = max 16 ((16 * face_height g) div 100)"
    using d scaled_16_100 [OF fh] by simp
  have "(16 * face_height g) div 100 < 2 ^ 31" using fh by linarith
  then have kwb: "0 \<le> knot_width g" "knot_width g < 2 ^ 31" using kw by simp_all
  have kh: "knot_height g = max 12 ((12 * face_height g) div 100)"
    using d scaled_12_100 [OF fh] by simp
  have tl: "tie_length g = max ((20 * h) div 100) ((12 * face_height g) div 10)"
    using d scaled_20_100 [OF assms(1,2)] scaled_12_10 [OF fh] by simp
  have tb: "tie_bottom_width g = max 26 ((16 * knot_width g) div 10)"
    using d scaled_16_10 [OF kwb] by simp
  have k12: "12 \<le> knot_height g" unfolding kh by simp
  from kh kw tl tb k12 show ?thesis by blast
qed

theorem tie_dimensions_witness:
  "(let g = tie_layout 800 1000 (Some \<lparr>fb_x = 300, fb_y = 200, fb_width = 200, fb_height = 200\<rparr>)
    in (0::int) \<le> 1000 \<and> (1000::int) < 2 ^ 31 \<and> face_height g = 200
       \<and> knot_height g = 24 \<and> knot_width g = 32 \<and> tie_length g = 240
       \<and> tie_bottom_width g = 51)"
proof -
  define g where
    "g = tie_layout 800 1000 (Some \<lparr>fb_x = 300, fb_y = 200, fb_width = 200, fb_height = 200\<rparr>)"
  have fh: "face_height g = 200" by (simp add: g_def tie_layout_Some Let_def)
  from tie_dimensions [of 1000 g 800 "Some \<lparr>fb_x = 300, fb_y = 200, fb_width = 200, fb_height = 200\<rparr>"]
  have "knot_height g = 24 \<and> knot_width g = 32 \<and> tie_length g = 240 \<and> tie_bottom_width g = 51"
    by (simp add: fh g_def [symmetric])
  with fh show ?thesis by (simp add: g_def Let_def)
qed

lemma tie_length_100:
  "tie_length (tie_layout 800 1000 (Some \<lparr>fb_x = 350, fb_y = 200, fb_width = 100, fb_height = 100\<rparr>)) = 200
   \<and> tie_length (tie_layout 800 2000 (Some \<lparr>fb_x = 350, fb_y = 200, fb_width = 100, fb_height = 100\<rparr>)) = 400"
proof -
  have a: "int_of_scaled 1000 (20/100) = 200" using scaled_20_100 [of 1000] by simp
  have b: "int_of_scaled 2000 (20/100) = 400" using scaled_20_100 [of 2000] by simp
  have c: "int_of_scaled 100 (12/10) = 120" using scaled_12_10 [of 100] by simp
  show ?thesis
    using a b c tie_dims_of_face_height [of 800 1000 "Some \<lparr>fb_x = 350, fb_y = 200, fb_width = 100, fb_height = 100\<rparr>"]
      tie_dims_of_face_height [of 800 2000 "Some \<lparr>fb_x = 350, fb_y = 200, fb_width = 100, fb_height = 100\<rparr>"]
    by (simp add: tie_layout_Some Let_def)
qed

text \<open>
  C5 as stated fails for the blade length: one face box, 100 pixels high, gives a blade
  of 200 pixels in an image 1000 pixels high and of 400 pixels in one 2000 pixels high.
  So no proportion \<open>c\<close> and no minimum \<open>k\<close> make the blade length
  \<open>max(k, \<lfloor>c * face_height\<rfloor>)\<close> for every image.
\<close>

theorem blade_length_depends_on_image_height:
  "tie_length (tie_layout 800 1000 (Some \<lparr>fb_x = 350, fb_y = 200, fb_width = 100, fb_height = 100\<rparr>)) = 200
   \<and> tie_length (tie_layout 800 2000 (Some \<lparr>fb_x = 350, fb_y = 200, fb_width = 100, fb_height = 100\<rparr>)) = 400
   \<and> \<not> (\<exists>(c::rat) k. \<forall>w h fb.
           tie_length (tie_layout w h (Some fb)) = max k \<lfloor>c * of_int (fb_height fb)\<rfloor>)"
proof -
  let ?fb = "\<lparr>fb_x = 350, fb_y = 200, fb_width = 100, fb_height = 100\<rparr>"
  have "False" if "\<forall>w h fb. tie_length (tie_layout w h (Some fb)) = max k \<lfloor>c * of_int (fb_height fb)\<rfloor>"
    for c :: rat and k
  proof -
    from that have "tie_length (tie_layout 800 1000 (Some ?fb)) = max k \<lfloor>c * of_int (fb_height ?fb)\<rfloor>"
      and "tie_length (tie_layout 800 2000 (Some ?fb)) = max k \<lfloor>c * of_int (fb_height ?fb)\<rfloor>"
      by blast+
    with tie_length_100 show False by (auto simp: max_def split: if_splits)
  qed
  with tie_length_100 show ?thesis by blast
qed

text \<open>
  C10. \<open>draw_tie\<close> draws on a fresh image: the reference it returns is new, and every
  image that was in the store before the call, the argument among them, is unchanged
  after it.
\<close>

theorem draw_tie_keeps_input:
  assumes "r < length s"
  shows "(let (s', out) = draw_tie polygon s r face_box
          in out \<noteq> r \<and> out < length s' \<and> take (length s) s' = s \<and> s' ! r = s ! r)"
  using assms by (simp add: draw_tie_unfold Let_def nth_append)

theorem draw_tie_keeps_input_witness:
  "(let im = \<lparr>img_width = 2, img_height = 1, img_pixels = [[RGBA 1 2 3 255, RGBA 4 5 6 255]]\<rparr>;
        (s', out) = draw_tie flood [im] 0 None
    in (0::nat) < length [im] \<and> out = 2 \<and> s' ! 0 = im
       \<and> img_pixels (s' ! out) = [[highlight, highlight]])"
  using draw_tie_keeps_input [of 0
      "[\<lparr>img_width = 2, img_height = 1, img_pixels = [[RGBA 1 2 3 255, RGBA 4 5 6 255]]\<rparr>]"
      flood None]
  by (simp add: draw_tie_unfold flood_def Let_def)

text \<open>
  C6. For every image size and every face box, detected or absent, the blade's tip (the
  fourth vertex of the blade polygon) has a y-coordinate of at most \<open>h - 6\<close>: it stays at
  least 6 pixels above the bottom edge of the image.
\<close>

theorem blade_tip_clipped:
  "tip_y (tie_layout w h face_box) \<le> h - 6
   \<and> blade_points (tie_layout w h face_box) ! 3
       = (cx (tie_layout w h face_box), tip_y (tie_layout w h face_box))"
  by (simp add: tie_layout_def blade_points_def Let_def split: prod.split)

section \<open>Properties of remove\_background\_keep\_subject\<close>

lemma alpha_of_mask_eq_id: "alpha_of_mask = (\<lambda>m. m)"
  by (rule ext) (rule alpha_of_mask_id)

lemma rgb_of_planes: "rgb_of (RGBA (rgb_r p) (rgb_g p) (rgb_b p) a) = p"
  by (cases p) (simp add: rgb_of_def rgb_r_def rgb_g_def rgb_b_def)

lemma stack_row:
  "length ar = length row \<Longrightarrow>
     map rgb_of (dstack_row (map rgb_r row) (map rgb_g row) (map rgb_b row) ar) = row
     \<and> map px_a (dstack_row (map rgb_r row) (map rgb_g row) (map rgb_b row) ar) = ar"
proof (induction row arbitrary: ar)
  case Nil
  then show ?case by (simp add: dstack_row_def)
next
  case (Cons p row)
  then obtain a ar' where ar: "ar = a # ar'" by (cases ar) auto
  with Cons.prems have "length ar' = length row" by simp
  from Cons.IH [OF this] show ?case
    by (simp add: ar dstack_row_def rgb_of_planes)
qed

lemma stack_rows:
  "map length A = map length rgb \<Longrightarrow>
     map (map rgb_of)
       (map (\<lambda>(rr, gr, br, ar). dstack_row rr gr br ar)
          (zip (plane rgb_r rgb) (zip (plane rgb_g rgb) (zip (plane rgb_b rgb) A)))) = rgb
     \<and> map (map px_a)
       (map (\<lambda>(rr, gr, br, ar). dstack_row rr gr br ar)
          (zip (plane rgb_r rgb) (zip (plane rgb_g rgb) (zip (plane rgb_b rgb) A)))) = A"
proof (induction rgb arbitrary: A)
  case Nil
  then show ?case by (simp add: plane_def)
next
  case (Cons row rgb)
  then obtain ar A' where A: "A = ar # A'" by (cases A) auto
  with Cons.prems have l: "length ar = length row" and "map length A' = map length rgb"
    by simp_all
  from Cons.IH [OF this(2)] stack_row [OF l] show ?case
    by (simp add: A plane_def)
qed

lemma dstack4_planes:
  assumes "map length A = map length rgb"
  shows "\<exists>rgba. dstack4 (plane rgb_r rgb) (plane rgb_g rgb) (plane rgb_b rgb) A = Inr rgba
            \<and> map (map rgb_of) rgba = rgb \<and> map (map px_a) rgba = A"
proof -
  have "map length (plane c rgb) = map length rgb" for c
    by (simp add: plane_def o_def)
  with assms stack_rows [OF assms] show ?thesis by (simp add: dstack4_def)
qed

lemma dstack4_shape: "dstack4 r g b a = Inr rgba \<Longrightarrow> map length a = map length r"
  by (simp add: dstack4_def split: if_splits)

text \<open>An exception of OpenCV is the function's exception.\<close>

lemma subject_mask_raises:
  "subject_mask cv (convert_rgb im) = Inl e \<Longrightarrow> remove_background_keep_subject cv im = Inl e"
  by (simp add: remove_background_keep_subject_def and_then_def Let_def)

text \<open>On an empty image the conversion of line 70 raises, and so does the function.\<close>

lemma empty_image_raises:
  "remove_background_keep_subject plain_cv2 \<lparr>img_width = 0, img_height = 0, img_pixels = []\<rparr>
     = Inl cv2_error"
  by (simp add: remove_background_keep_subject_def subject_mask_def and_then_def Let_def
      plain_cv2_def plain_cvtColor_def convert_rgb_def)

text \<open>
  C8. Whatever OpenCV computes: an image that the function returns has the red, green
  and blue channels of the input, pixel for pixel, and its alpha channel is the feathered
  subject mask that OpenCV returned. The function does return an image whenever OpenCV
  returns a mask of the shape of the image; when an OpenCV call raises, as on an empty
  image, there is no returned image.
\<close>

theorem subject_keeps_rgb:
  "(\<forall>subject. remove_background_keep_subject cv im = Inr subject \<longrightarrow>
       map (map rgb_of) (img_pixels subject) = map (map rgb_of) (img_pixels im)
       \<and> subject_mask cv (convert_rgb im) = Inr (map (map px_a) (img_pixels subject)))
   \<and> (\<forall>m. subject_mask cv (convert_rgb im) = Inr m \<and> map length m = map length (img_pixels im) \<longrightarrow>
       (\<exists>subject. remove_background_keep_subject cv im = Inr subject))"
proof -
  let ?rgb = "convert_rgb im"
  let ?stack = "dstack4 (plane rgb_r ?rgb) (plane rgb_g ?rgb) (plane rgb_b ?rgb)"
  have run: "remove_background_keep_subject cv im =
      and_then (subject_mask cv ?rgb) (\<lambda>m. and_then (?stack m) (\<lambda>rgba. Inr (fromarray rgba)))"
    by (simp add: remove_background_keep_subject_def Let_def alpha_of_mask_eq_id)
  have shape: "map length (plane c ?rgb) = map length (img_pixels im)" for c
    by (simp add: plane_def convert_rgb_def o_def)
  have stacked: "\<exists>rgba. ?stack m = Inr rgba \<and> map (map rgb_of) rgba = ?rgb \<and> map (map px_a) rgba = m"
    if "map length m = map length (img_pixels im)" for m
  proof -
    from that have "map length m = map length ?rgb"
      by (simp add: convert_rgb_def o_def)
    then show ?thesis by (rule dstack4_planes)
  qed
  have returned: "map (map rgb_of) (img_pixels subject) = map (map rgb_of) (img_pixels im)
       \<and> subject_mask cv ?rgb = Inr (map (map px_a) (img_pixels subject))"
    if r: "remove_background_keep_subject cv im = Inr subject" for subject
  proof -
    from r obtain m where m: "subject_mask cv ?rgb = Inr m"
      by (cases "subject_mask cv ?rgb") (simp_all add: run and_then_def)
    with r obtain rgba where rgba: "?stack m = Inr rgba" and s: "subject = fromarray rgba"
      by (cases "?stack m") (auto simp: run and_then_def)
    from dstack4_shape [OF rgba] have "map length m = map length (img_pixels im)"
      by (simp only: shape)
    from stacked [OF this] rgba have "map (map rgb_of) rgba = ?rgb" and "map (map px_a) rgba = m"
      by simp_all
    then show ?thesis by (simp add: s m fromarray_def) (simp add: convert_rgb_def)
  qed
  have returns: "\<exists>subject. remove_background_keep_subject cv im = Inr subject"
    if "subject_mask cv ?rgb = Inr m" and "map length m = map length (img_pixels im)" for m
    using that(1) stacked [OF that(2)] by (auto simp: run and_then_def)
  from returned returns show ?thesis by blast
qed

theorem subject_keeps_rgb_witness:
  "remove_background_keep_subject plain_cv2
       \<lparr>img_width = 2, img_height = 1, img_pixels = [[RGBA 1 2 3 7, RGBA 4 5 6 9]]\<rparr>
     = Inr \<lparr>img_width = 2, img_height = 1, img_pixels = [[RGBA 1 2 3 255, RGBA 4 5 6 255]]\<rparr>
   \<and> subject_mask plain_cv2
       (convert_rgb \<lparr>img_width = 2, img_height = 1, img_pixels = [[RGBA 1 2 3 7, RGBA 4 5 6 9]]\<rparr>)
     = Inr [[255, 255]]
   \<and> map length [[255, 255 :: 8 word]] = map length [[RGBA 1 2 3 7, RGBA 4 5 6 9]]"
proof -
  have m: "subject_mask plain_cv2 [[(1, 2, 3), (4, 5, 6)]] = Inr [[255, 255]]"
    by (simp add: subject_mask_def plain_cv2_def plain_cvtColor_def and_then_def)
  from subject_keeps_rgb [of plain_cv2
      "\<lparr>img_width = 2, img_height = 1, img_pixels = [[RGBA 1 2 3 7, RGBA 4 5 6 9]]\<rparr>"]
  show ?thesis
    by (simp add: m remove_background_keep_subject_def dstack4_def dstack_row_def plane_def
        convert_rgb_def rgb_of_def rgb_r_def rgb_g_def rgb_b_def fromarray_def
        alpha_of_mask_eq_id and_then_def Let_def)
qed

section \<open>Properties of detect\_primary\_face\_bbox\<close>

lemma py_max_key_member: "py_max_key key best fs \<in> set (best # fs)"
  by (induction fs arbitrary: best) auto

lemma py_max_key_ge_best: "key best \<le> key (py_max_key key best fs)"
proof (induction fs arbitrary: best)
  case Nil
  then show ?case by simp
next
  case (Cons f fs)
  have "key best \<le> key (if key best < key f then f else best)" by simp
  also have "\<dots> \<le> key (py_max_key key (if key best < key f then f else best) fs)"
    by (rule Cons.IH)
  finally show ?case by simp
qed

lemma py_max_key_max: "g \<in> set (best # fs) \<Longrightarrow> key g \<le> key (py_max_key key best fs)"
proof (induction fs arbitrary: best)
  case Nil
  then show ?case by simp
next
  case (Cons f fs)
  let ?b = "if key best < key f then f else best"
  from Cons.prems consider "g = best" | "g = f" | "g \<in> set fs" by auto
  then show ?case
  proof cases
    case 1
    have "key best \<le> key ?b" by simp
    also have "\<dots> \<le> key (py_max_key key ?b fs)" by (rule py_max_key_ge_best)
    finally show ?thesis using 1 by simp
  next
    case 2
    have "key f \<le> key ?b" by simp
    also have "\<dots> \<le> key (py_max_key key ?b fs)" by (rule py_max_key_ge_best)
    finally show ?thesis using 2 by simp
  next
    case 3
    then have "g \<in> set (?b # fs)" by simp
    from Cons.IH [OF this] show ?thesis by simp
  qed
qed

text \<open>A 32-bit product of two non-negative factors is exact as long as it stays below \<open>2 ^ 31\<close>.\<close>

lemma face_area_exact:
  fixes w h :: "32 word"
  assumes "0 \<le> sint w" "0 \<le> sint h" "sint w * sint h < 2 ^ 31"
  shows "face_area (x, y, w, h) = sint w * sint h"
proof -
  have "0 \<le> sint w * sint h" using assms(1,2) by simp
  then have "signed_take_bit 31 (sint w * sint h) = sint w * sint h"
    using assms(3) by (intro signed_take_bit_int_eq_self) simp_all
  then show ?thesis by (simp add: face_area_def sint_word_ariths)
qed

text \<open>
  What the function does for a detector that returns: \<open>None\<close> for no face, otherwise one
  of the reported rectangles. It is a rectangle of largest area when the areas are those
  of faces whose sides are non-negative and whose product fits 32 bits.
\<close>

lemma largest_face_without_overflow:
  assumes gray: "cvtColor_RGB2GRAY cv (convert_rgb im) = Inr gray"
    and faces: "detectMultiScale gray face_cascade_args = Inr faces"
    and fit: "\<forall>(x, y, w, h) \<in> set faces. 0 \<le> sint w \<and> 0 \<le> sint h \<and> sint w * sint h < 2 ^ 31"
  shows "minSize face_cascade_args = (80, 80)"
    and "faces = [] \<Longrightarrow> detect_primary_face_bbox cv detectMultiScale im = Inr None"
    and "faces \<noteq> [] \<Longrightarrow>
           \<exists>x y w h. (x, y, w, h) \<in> set faces
              \<and> detect_primary_face_bbox cv detectMultiScale im
                = Inr (Some \<lparr>fb_x = sint x, fb_y = sint y, fb_width = sint w, fb_height = sint h\<rparr>)
              \<and> (\<forall>(x', y', w', h') \<in> set faces. sint w' * sint h' \<le> sint w * sint h)"
proof -
  have fits: "face_area (x, y, w, h) = sint w * sint h" if "(x, y, w, h) \<in> set faces" for x y w h
    using fit that by (intro face_area_exact) auto
  have d: "detect_primary_face_bbox cv detectMultiScale im =
      (case faces of [] \<Rightarrow> Inr None
       | f # fs \<Rightarrow> (case py_max_key face_area f fs of
            (x, y, w, h) \<Rightarrow>
              Inr (Some \<lparr>fb_x = sint x, fb_y = sint y, fb_width = sint w, fb_height = sint h\<rparr>)))"
    by (simp add: detect_primary_face_bbox_def and_then_def gray faces)
  show "minSize face_cascade_args = (80, 80)"
    by (simp add: face_cascade_args_def)
  show "detect_primary_face_bbox cv detectMultiScale im = Inr None" if "faces = []"
    using that by (simp add: d)
  show "\<exists>x y w h. (x, y, w, h) \<in> set faces
          \<and> detect_primary_face_bbox cv detectMultiScale im
            = Inr (Some \<lparr>fb_x = sint x, fb_y = sint y, fb_width = sint w, fb_height = sint h\<rparr>)
          \<and> (\<forall>(x', y', w', h') \<in> set faces. sint w' * sint h' \<le> sint w * sint h)"
    if "faces \<noteq> []"
  proof -
    from that obtain f fs where fs: "faces = f # fs" by (cases faces) auto
    obtain x y w h where m: "py_max_key face_area f fs = (x, y, w, h)"
      by (cases "py_max_key face_area f fs") auto
    have mem: "(x, y, w, h) \<in> set faces"
      using py_max_key_member [of face_area f fs] by (simp add: m fs)
    have "sint w' * sint h' \<le> sint w * sint h" if g: "(x', y', w', h') \<in> set faces" for x' y' w' h'
    proof -
      have "face_area (x', y', w', h') \<le> face_area (x, y, w, h)"
        using py_max_key_max [of "(x', y', w', h')" f fs face_area] g by (simp add: m fs)
      then show ?thesis by (simp only: fits [OF g] fits [OF mem])
    qed
    then have largest: "\<forall>(x', y', w', h') \<in> set faces. sint w' * sint h' \<le> sint w * sint h"
      by blast
    have "detect_primary_face_bbox cv detectMultiScale im
            = Inr (Some \<lparr>fb_x = sint x, fb_y = sint y, fb_width = sint w, fb_height = sint h\<rparr>)"
      by (simp add: d fs m)
    with mem largest show ?thesis by blast
  qed
qed

text \<open>An exception of the grey conversion of line 114 is the function's exception.\<close>

lemma gray_conversion_raises:
  "cvtColor_RGB2GRAY cv (convert_rgb im) = Inl e \<Longrightarrow>
     detect_primary_face_bbox cv detectMultiScale im = Inl e"
  by (simp add: detect_primary_face_bbox_def and_then_def)

lemma largest_of_three_faces:
  "detect_primary_face_bbox plain_cv2
       (\<lambda>gray args. Inr [(10, 10, 80, 80), (100, 50, 120, 130), (5, 5, 90, 90)])
       \<lparr>img_width = 1, img_height = 1, img_pixels = [[RGBA 1 2 3 255]]\<rparr>
     = Inr (Some \<lparr>fb_x = 100, fb_y = 50, fb_width = 120, fb_height = 130\<rparr>)
   \<and> detect_primary_face_bbox plain_cv2 (\<lambda>gray args. Inr [])
       \<lparr>img_width = 1, img_height = 1, img_pixels = [[RGBA 1 2 3 255]]\<rparr> = Inr None"
  by (simp add: detect_primary_face_bbox_def and_then_def plain_cv2_def plain_cvtColor_def
      convert_rgb_def face_area_def)

text \<open>
  C3. The key of \<open>max\<close> is the 32-bit product \<open>f[2] * f[3]\<close>. For a face of 46341 by 46341
  pixels the area 2147488281 exceeds \<open>2 ^ 31 - 1\<close> and the product wraps around to
  \<open>- 2147479015\<close>, so that of the two reported faces the function returns the one of 80 by
  80 pixels, whose area is 6400, and not the largest.
\<close>

theorem largest_face_lost_to_overflow:
  "detect_primary_face_bbox plain_cv2
       (\<lambda>gray args. Inr [(0, 0, 46341, 46341), (1, 1, 80, 80)])
       \<lparr>img_width = 46341, img_height = 46341,
        img_pixels = replicate 46341 (replicate 46341 (RGBA 200 30 30 255))\<rparr>
     = Inr (Some \<lparr>fb_x = 1, fb_y = 1, fb_width = 80, fb_height = 80\<rparr>)
   \<and> face_area (0, 0, 46341, 46341) = - 2147479015
   \<and> face_area (1, 1, 80, 80) = 6400
   \<and> sint (46341 :: 32 word) * sint (46341 :: 32 word) = 2147488281"
  by (simp add: detect_primary_face_bbox_def and_then_def plain_cv2_def plain_cvtColor_def
      convert_rgb_def face_area_def)

section \<open>Properties of compose\_subject\_on\_background\<close>

lemma round_div_mult: "0 < d \<Longrightarrow> round_div (c * d) d = c"
proof -
  assume d: "0 < d"
  have "(2 * (c * d) + d) div (2 * d) = (d + c * (2 * d)) div (2 * d)"
    by (simp add: algebra_simps)
  also have "\<dots> = d div (2 * d) + c" using d by simp
  also have "\<dots> = c" using d by simp
  finally show ?thesis by (simp add: round_div_def)
qed

lemma over_channel_opaque: "over_channel c 255 c_b a_b = c"
proof -
  have "over_alpha 255 a_b = 65025" by (simp add: over_alpha_def)
  moreover have "round_div (65025 * unat c) 65025 = unat c"
    using round_div_mult [of 65025 "unat c"] by (simp add: mult.commute)
  ultimately show ?thesis by (simp add: over_channel_def)
qed

lemma over_opaque: "px_a src = 255 \<Longrightarrow> rgb_of (over src dst) = rgb_of src \<and> px_a (over src dst) = 255"
  by (simp add: over_def rgb_of_def over_channel_opaque over_alpha_def round_div_def)

text \<open>
  C1. Let \<open>subj\<close> be the subject as it is composited: the subject itself when it has the
  size of the background, the resampler's answer otherwise. When the alpha channel of
  \<open>subj\<close> is 255 at a pixel, the composite has the red, green and blue values of \<open>subj\<close> at
  that pixel (and is opaque there), whatever the background holds.
\<close>

theorem opaque_subject_unchanged:
  assumes "(if size_of subject \<noteq> size_of bg then resize subject (size_of bg) else Inr subject)
             = Inr subj"
    and "size_of subj = size_of bg"
    and "y < length (img_pixels subj)" "y < length (img_pixels bg)"
    and "x < length (img_pixels subj ! y)" "x < length (img_pixels bg ! y)"
    and "px_a (img_pixels subj ! y ! x) = 255"
  shows "\<exists>composed. compose_subject_on_background resize subject bg = Inr composed
           \<and> rgb_of (img_pixels composed ! y ! x) = rgb_of (img_pixels subj ! y ! x)
           \<and> px_a (img_pixels composed ! y ! x) = 255"
proof -
  have sz: "img_size bg = img_size subj"
    using assms(2) by (simp add: size_of_def img_size_def)
  have c: "compose_subject_on_background resize subject bg = alpha_composite bg subj"
    using assms(1) by (simp add: compose_subject_on_background_def Let_def)
  have "map2 (map2 (\<lambda>dst src. over src dst)) (img_pixels bg) (img_pixels subj) ! y ! x
          = over (img_pixels subj ! y ! x) (img_pixels bg ! y ! x)"
    using assms(3-6) by simp
  with over_opaque [OF assms(7)] show ?thesis
    by (simp add: c alpha_composite_def sz)
qed

theorem opaque_subject_unchanged_witness:
  "(let subject = \<lparr>img_width = 1, img_height = 1, img_pixels = [[RGBA 1 2 3 255]]\<rparr>;
        bg = \<lparr>img_width = 2, img_height = 1, img_pixels = [[RGBA 200 210 220 255, RGBA 201 211 221 255]]\<rparr>;
        subj = \<lparr>img_width = 2, img_height = 1, img_pixels = [[RGBA 9 8 7 255, RGBA 9 8 7 255]]\<rparr>
    in size_of subject \<noteq> size_of bg
       \<and> uniform_resize (RGBA 9 8 7 255) subject (size_of bg) = Inr subj
       \<and> size_of subj = size_of bg
       \<and> px_a (img_pixels subj ! 0 ! 1) = 255
       \<and> (\<exists>composed. compose_subject_on_background (uniform_resize (RGBA 9 8 7 255)) subject bg
              = Inr composed
            \<and> rgb_of (img_pixels composed ! 0 ! 1) = (9, 8, 7)))"
proof -
  define subject where "subject = \<lparr>img_width = 1, img_height = 1, img_pixels = [[RGBA 1 2 3 255]]\<rparr>"
  define bg where
    "bg = \<lparr>img_width = 2, img_height = 1, img_pixels = [[RGBA 200 210 220 255, RGBA 201 211 221 255]]\<rparr>"
  define subj where
    "subj = \<lparr>img_width = 2, img_height = 1, img_pixels = [[RGBA 9 8 7 255, RGBA 9 8 7 255]]\<rparr>"
  have ne: "size_of subject \<noteq> size_of bg" by (simp add: size_of_def subject_def bg_def)
  have rs: "uniform_resize (RGBA 9 8 7 255) subject (size_of bg) = Inr subj"
    by (simp add: uniform_resize_def size_of_def bg_def subj_def eval_nat_numeral)
  have sz: "size_of subj = size_of bg" by (simp add: size_of_def subj_def bg_def)
  have px: "img_pixels subj ! 0 ! 1 = RGBA 9 8 7 255" by (simp add: subj_def)
  have h: "(if size_of subject \<noteq> size_of bg
            then uniform_resize (RGBA 9 8 7 255) subject (size_of bg) else Inr subject) = Inr subj"
    using ne rs by simp
  have "\<exists>composed. compose_subject_on_background (uniform_resize (RGBA 9 8 7 255)) subject bg
              = Inr composed
            \<and> rgb_of (img_pixels composed ! 0 ! 1) = rgb_of (img_pixels subj ! 0 ! 1)
            \<and> px_a (img_pixels composed ! 0 ! 1) = 255"
  proof (rule opaque_subject_unchanged [of subject bg "uniform_resize (RGBA 9 8 7 255)" subj 0 1])
    show "(if size_of subject \<noteq> size_of bg
            then uniform_resize (RGBA 9 8 7 255) subject (size_of bg) else Inr subject) = Inr subj"
      by (rule h)
    show "size_of subj = size_of bg" by (rule sz)
  qed (simp_all add: subj_def bg_def)
  then have "\<exists>composed. compose_subject_on_background (uniform_resize (RGBA 9 8 7 255)) subject bg
              = Inr composed
            \<and> rgb_of (img_pixels composed ! 0 ! 1) = (9, 8, 7)"
    using px by (auto simp: rgb_of_def)
  with ne rs sz px show ?thesis
    unfolding Let_def subject_def [symmetric] bg_def [symmetric] subj_def [symmetric] by simp
qed

section \<open>Properties of generate\_linkedin\_gradient\_background\<close>

lemma fold_update_prefix:
  "k \<le> length g \<Longrightarrow> fold (\<lambda>i g. g[i := f i]) [0..<k] g = map f [0..<k] @ drop k g"
proof (induction k)
  case 0
  then show ?case by simp
next
  case (Suc k)
  then have k: "k < length g" by simp
  then have d: "drop k g = g ! k # drop (Suc k) g" by (simp add: Cons_nth_drop_Suc)
  have "fold (\<lambda>i g. g[i := f i]) [0..<Suc k] g = (map f [0..<k] @ drop k g)[k := f k]"
    using Suc.IH k by simp
  also have "\<dots> = map f [0..<k] @ (drop k g)[0 := f k]"
    by (simp add: list_update_append)
  also have "\<dots> = map f [0..<Suc k] @ drop (Suc k) g" by (simp add: d)
  finally show ?case .
qed

lemma fold_update_upt: "length g = n \<Longrightarrow> fold (\<lambda>i g. g[i := f i]) [0..<n] g = map f [0..<n]"
  using fold_update_prefix [of n g f] by simp

text \<open>The divisor \<open>max(1, height - 1)\<close> is never zero, so no row raises.\<close>

lemma row_color_total:
  "row_color height row top' bottom'
     = Inr (blend (rnd64 (of_int row / of_int (max 1 (height - 1)))) top' bottom')"
  by (simp add: row_color_def py_truediv_def)

lemma gradient_loop_fold:
  "gradient_loop width height top' bottom' rows g =
     Inr (fold (\<lambda>row g. g[row := replicate (nat width)
                  (astype_pixel (blend (rnd64 (of_int (int row) / of_int (max 1 (height - 1))))
                     top' bottom'))]) rows g)"
  by (induction rows arbitrary: g) (simp_all add: row_color_total)

lemma gradient_rows:
  assumes "0 \<le> width" "0 \<le> height"
  shows "generate_linkedin_gradient_background width height top_color bottom_color =
     Inr \<lparr>img_width = nat width, img_height = nat height,
          img_pixels = map (\<lambda>row. replicate (nat width)
              (astype_pixel (blend (rnd64 (of_int (int row) / of_int (max 1 (height - 1))))
                 (color_array top_color) (color_array bottom_color)))) [0..<nat height]\<rparr>"
  using assms
  by (simp add: generate_linkedin_gradient_background_def gradient_loop_fold np_zeros_def
      fold_update_upt)

lemma rnd64_1 [simp]: "rnd64 1 = 1"
  using fl_round_of_int [of 1 53] by (simp add: rnd64_def)

lemma blend_zero:
  assumes "0 \<le> r" "r \<le> 255" "0 \<le> g" "g \<le> 255" "0 \<le> b" "b \<le> 255"
  shows "astype_pixel (blend 0 (color_array (r, g, b)) bottom')
           = RGBA (word_of_int r) (word_of_int g) (word_of_int b) 255"
proof -
  have e: "np_float32 c = of_int c" "rnd32 (of_int c) = of_int c" if "0 \<le> c" "c \<le> 255" for c
    using that by (simp_all add: np_float32_exact rnd32_of_int)
  have one: "int_sub_float 1 0 = 1" by (simp add: int_sub_float_def py_float_def)
  have a: "astype_uint8 (of_int c) = word_of_int c" for c
    unfolding astype_uint8_def by (simp only: py_int_of_int)
  obtain b1 b2 b3 b4 where bt: "bottom' = (b1, b2, b3, b4)" by (cases bottom') auto
  have "blend 0 (color_array (r, g, b)) bottom' = (of_int r, of_int g, of_int b, of_int 255)"
    using e [of r] e [of g] e [of b] e [of 255] assms
    by (simp add: blend_def color_array_def scalar_mul32_def add32_def map4_def zip4_def one bt)
  then show ?thesis by (simp only: astype_pixel_def map4_def prod.case a) simp
qed

text \<open>
  C9. For height 1 the function returns (no division by zero): the image has one row,
  and every pixel of it is the top colour, fully opaque, whatever the bottom colour is.
\<close>

theorem single_row_is_top_color:
  assumes "0 \<le> width" "0 \<le> r" "r \<le> 255" "0 \<le> g" "g \<le> 255" "0 \<le> b" "b \<le> 255"
  shows "generate_linkedin_gradient_background width 1 (r, g, b) bottom_color =
     Inr \<lparr>img_width = nat width, img_height = 1,
          img_pixels = [replicate (nat width) (RGBA (word_of_int r) (word_of_int g) (word_of_int b) 255)]\<rparr>"
  using assms(1) blend_zero [OF assms(2-7)]
  by (simp add: gradient_rows)

theorem single_row_is_top_color_witness:
  "generate_linkedin_gradient_background 3 1 (234, 243, 255) (191, 215, 255) =
     Inr \<lparr>img_width = 3, img_height = 1,
          img_pixels = [[RGBA 234 243 255 255, RGBA 234 243 255 255, RGBA 234 243 255 255]]\<rparr>"
  using single_row_is_top_color [of 3 234 243 255 "(191, 215, 255)"]
  by (simp add: eval_nat_numeral)

lemma blend_one:
  assumes "0 \<le> r" "r \<le> 255" "0 \<le> g" "g \<le> 255" "0 \<le> b" "b \<le> 255"
  shows "astype_pixel (blend 1 top' (color_array (r, g, b)))
           = RGBA (word_of_int r) (word_of_int g) (word_of_int b) 255"
proof -
  have e: "np_float32 c = of_int c" "rnd32 (of_int c) = of_int c" if "0 \<le> c" "c \<le> 255" for c
    using that by (simp_all add: np_float32_exact rnd32_of_int)
  have zero: "int_sub_float 1 1 = 0" by (simp add: int_sub_float_def py_float_def)
  have a: "astype_uint8 (of_int c) = word_of_int c" for c
    unfolding astype_uint8_def by (simp only: py_int_of_int)
  obtain t1 t2 t3 t4 where tt: "top' = (t1, t2, t3, t4)" by (cases top') auto
  have "blend 1 top' (color_array (r, g, b)) = (of_int r, of_int g, of_int b, of_int 255)"
    using e [of r] e [of g] e [of b] e [of 255] assms
    by (simp add: blend_def color_array_def scalar_mul32_def add32_def map4_def zip4_def zero tt)
  then show ?thesis by (simp only: astype_pixel_def map4_def prod.case a) simp
qed

text \<open>
  The two ends of the gradient are exact for every height from 2 on: row 0 is the top
  colour and the last row is the bottom colour.
\<close>

lemma gradient_end_rows:
  assumes "0 \<le> width" "2 \<le> height"
    and "0 \<le> r" "r \<le> 255" "0 \<le> g" "g \<le> 255" "0 \<le> b" "b \<le> 255"
    and "0 \<le> r'" "r' \<le> 255" "0 \<le> g'" "g' \<le> 255" "0 \<le> b'" "b' \<le> 255"
  shows "\<exists>im. generate_linkedin_gradient_background width height (r, g, b) (r', g', b') = Inr im
     \<and> length (img_pixels im) = nat height
     \<and> img_pixels im ! 0
         = replicate (nat width) (RGBA (word_of_int r) (word_of_int g) (word_of_int b) 255)
     \<and> img_pixels im ! (nat height - 1)
         = replicate (nat width) (RGBA (word_of_int r') (word_of_int g') (word_of_int b') 255)"
proof -
  have h: "0 \<le> height" "0 < nat height" "nat height - 1 < nat height" using assms(2) by simp_all
  have last: "rnd64 (of_int (int (nat height - 1)) / of_int (max 1 (height - 1))) = 1"
  proof -
    have "int (nat height - 1) = height - 1" "max 1 (height - 1) = height - 1"
      using assms(2) by simp_all
    moreover have "(of_int (height - 1) :: rat) / of_int (height - 1) = 1"
      using assms(2) by simp
    ultimately show ?thesis by (simp only: rnd64_1)
  qed
  show ?thesis
    using h blend_zero [OF assms(3-8)] blend_one [OF assms(9-14)] last
    by (simp add: gradient_rows [OF assms(1) h(1)])
qed

text \<open>Three rows of the 15-row gradient with the default colours, evaluated.\<close>

lemma gradient_15_row2:
  "astype_pixel (blend (rnd64 (of_int (int 2) / of_int (max 1 (15 - 1))))
     (color_array default_top_color) (color_array default_bottom_color)) = RGBA 227 239 255 255"
  unfolding rnd64_def rnd32_def by code_simp

lemma gradient_15_row3:
  "astype_pixel (blend (rnd64 (of_int (int 3) / of_int (max 1 (15 - 1))))
     (color_array default_top_color) (color_array default_bottom_color)) = RGBA 224 237 254 254"
  unfolding rnd64_def rnd32_def by code_simp

lemma gradient_15_row4:
  "astype_pixel (blend (rnd64 (of_int (int 4) / of_int (max 1 (15 - 1))))
     (color_array default_top_color) (color_array default_bottom_color)) = RGBA 221 235 255 255"
  unfolding rnd64_def rnd32_def by code_simp

text \<open>
  C2 fails in the code. With the default colours and 15 rows, \<open>t = 3 / 14\<close> in row 3:
  the \<open>float32\<close> sum \<open>(1 - t) * 255 + t * 255\<close> is the \<open>float32\<close> just below 255, and
  \<open>astype(np.uint8)\<close> truncates it to 254. The blue channel, 255 at both ends, reads
  255, 254, 255 in rows 2, 3 and 4, and the image is not opaque in row 3.
\<close>

theorem gradient_dips_at_15_rows:
  "\<exists>im. generate_linkedin_gradient_background 1 15 default_top_color default_bottom_color = Inr im
      \<and> img_pixels im ! 2 = [RGBA 227 239 255 255]
      \<and> img_pixels im ! 3 = [RGBA 224 237 254 254]
      \<and> img_pixels im ! 4 = [RGBA 221 235 255 255]"
  using gradient_15_row2 gradient_15_row3 gradient_15_row4
  by (simp add: gradient_rows)

section \<open>Properties of process\<close>

lemma py_int_between:
  assumes "of_int m - 1 < x" "x < of_int m + 1" "1 \<le> m"
  shows "py_int x = m - 1 \<or> py_int x = m"
proof (cases "of_int m \<le> x")
  case True
  with assms have "py_int x = m" by (intro py_int_floor) simp_all
  then show ?thesis by simp
next
  case False
  have "of_int (m - 1) \<le> x" "x < of_int (m - 1) + 1" using assms(1) False by simp_all
  moreover have "0 \<le> m - 1" using assms(3) by simp
  ultimately have "py_int x = m - 1" by (rule py_int_floor)
  then show ?thesis by simp
qed

text \<open>
  \<open>int(size * (requested / other_size))\<close> is the integer quotient
  \<open>(size * requested) div other_size\<close> or one less, and it is the quotient whenever the
  division leaves a remainder.
\<close>

lemma proportional_within_one:
  fixes ow oh w :: int
  assumes ow: "0 < ow" and oh: "0 < oh" and w: "0 < w" and N50: "oh * w < 2 ^ 50"
  shows "\<exists>r. proportional oh (Some w) ow = Inr r
           \<and> (r = (oh * w) div ow \<or> r = (oh * w) div ow - 1)
           \<and> (\<not> ow dvd oh * w \<longrightarrow> r = (oh * w) div ow)"
proof -
  define N where "N = oh * w"
  define m where "m = N div ow"
  define rem where "rem = N mod ow"
  define u :: rat where "u = 2 powi (- int 53)"
  define x0 :: rat where "x0 = of_int w / of_int ow"
  define ratio where "ratio = rnd64 x0"
  define y where "y = of_int oh * ratio"
  define R where "R = rnd64 y"
  define q :: rat where "q = of_int N / of_int ow"
  define ib :: rat where "ib = 1 / of_int ow"
  have u: "0 < u" "u = 1 / 2 ^ 53" by (simp_all add: u_def power_int_minus)
  have owr: "(0::rat) < of_int ow" and ohr: "(0::rat) < of_int oh" and wr: "(0::rat) < of_int w"
    using ow oh w by simp_all
  have Npos: "0 < N" using oh w by (simp add: N_def)
  have Nr: "(of_int N :: rat) = of_int oh * of_int w" by (simp add: N_def)
  have N50r: "(of_int N :: rat) < 2 ^ 50"
  proof -
    have "(of_int N :: rat) < of_int (2 ^ 50)" using N50 unfolding N_def by (simp only: of_int_less_iff)
    then show ?thesis by simp
  qed
  have oh53: "oh < 2 ^ 53"
  proof -
    have "oh * 1 \<le> oh * w" using oh w by (intro mult_left_mono) simp_all
    then show ?thesis using N50 by simp
  qed
  have x0pos: "0 < x0" unfolding x0_def using wr owr by (rule divide_pos_pos)
  have qeq: "q = of_int oh * x0" by (simp add: q_def x0_def Nr)
  have qpos: "0 < q" unfolding qeq using ohr x0pos by (rule mult_pos_pos)
  have e1: "\<bar>ratio - x0\<bar> \<le> x0 * u"
    using fl_round_error [OF x0pos, of 53] by (simp add: ratio_def rnd64_def u_def)
  have yq: "\<bar>y - q\<bar> \<le> q * u"
  proof -
    have "y - q = of_int oh * (ratio - x0)" by (simp add: y_def qeq algebra_simps)
    then have "\<bar>y - q\<bar> = of_int oh * \<bar>ratio - x0\<bar>" using ohr by (simp add: abs_mult)
    also have "\<dots> \<le> of_int oh * (x0 * u)" using e1 ohr by (intro mult_left_mono) simp_all
    finally show ?thesis by (simp add: qeq algebra_simps)
  qed
  define v where "v = q * u"
  have v0: "0 < v" unfolding v_def using qpos u(1) by (rule mult_pos_pos)
  have vq: "v < q"
  proof -
    have "u < 1" by (simp add: u(2))
    then have "q * u < q * 1" using qpos by (intro mult_strict_left_mono)
    then show ?thesis by (simp add: v_def)
  qed
  have y_lo: "q - v \<le> y" and y_hi: "y \<le> q + v"
    using yq by (simp_all add: v_def abs_le_iff)
  have ypos: "0 < y" using y_lo vq by linarith
  have e2: "\<bar>R - y\<bar> \<le> y * u"
    using fl_round_error [OF ypos, of 53] by (simp add: R_def rnd64_def u_def)
  have yu: "y * u \<le> 2 * v"
  proof -
    have "y * u \<le> (q + v) * u" using y_hi u(1) by (intro mult_right_mono) simp_all
    also have "\<dots> = v + v * u" by (simp add: v_def algebra_simps)
    also have "\<dots> \<le> v + v * 1"
    proof -
      have "u \<le> 1" by (simp add: u(2))
      then have "v * u \<le> v * 1" using v0 by (intro mult_left_mono) simp_all
      then show ?thesis by simp
    qed
    finally show ?thesis by simp
  qed
  have Rlo: "q - 3 * v \<le> R" and Rhi: "R \<le> q + 3 * v"
    using e2 yu y_lo y_hi by (simp_all add: abs_le_iff)
  have vb: "8 * v < ib"
  proof -
    have "v * of_int ow = of_int N * u" using owr by (simp add: v_def q_def)
    also have "\<dots> < 2 ^ 50 * u" using N50r u(1) by (rule mult_strict_right_mono)
    also have "\<dots> = 1 / 8" by (simp add: u(2))
    finally have "v * of_int ow < 1 / 8" .
    then have "v < 1 / 8 / of_int ow" using owr by (simp add: pos_less_divide_eq)
    then show ?thesis by (simp add: ib_def)
  qed
  have ib1: "ib \<le> 1"
  proof -
    have "(1::rat) \<le> of_int ow" using ow by simp
    then show ?thesis using owr by (simp add: ib_def)
  qed
  have mr: "N = m * ow + rem" "0 \<le> rem" "rem < ow" using ow by (simp_all add: m_def rem_def)
  have m0: "0 \<le> m" using Npos ow by (simp add: m_def pos_imp_zdiv_nonneg_iff)
  have "(of_int N :: rat) = of_int m * of_int ow + of_int rem"
    by (metis mr(1) of_int_add of_int_mult)
  then have qm: "q = of_int m + of_int rem / of_int ow"
    using owr by (simp add: q_def add_divide_distrib)
  have p: "proportional oh (Some w) ow = Inr (py_int R)"
    using ow oh oh53
    by (simp add: proportional_def opt_truediv_def py_truediv_def int_mul_float_def
        py_float_exact R_def y_def ratio_def x0_def)
  have dv: "ow dvd oh * w \<longleftrightarrow> rem = 0"
    by (simp add: rem_def N_def dvd_eq_mod_eq_0)
  show ?thesis
  proof (cases "rem = 0")
    case True
    then have qm': "q = of_int m" by (simp add: qm)
    have m1: "1 \<le> m" using qpos qm' by simp
    have "of_int m - 1 < R" using Rlo vb ib1 v0 unfolding qm' by linarith
    moreover have "R < of_int m + 1" using Rhi vb ib1 v0 unfolding qm' by linarith
    ultimately have "py_int R = m - 1 \<or> py_int R = m" using m1 by (rule py_int_between)
    then show ?thesis using p dv True by (auto simp: m_def N_def)
  next
    case False
    then have r1: "1 \<le> rem" "rem \<le> ow - 1" using mr by linarith+
    have rb_lo: "ib \<le> of_int rem / of_int ow"
    proof -
      have "(1::rat) \<le> of_int rem" using r1 by simp
      then show ?thesis using owr by (simp add: ib_def divide_right_mono)
    qed
    have rb_hi: "of_int rem / of_int ow \<le> 1 - ib"
    proof -
      have "(of_int rem :: rat) \<le> of_int ow - 1"
        using r1 by (metis of_int_1 of_int_diff of_int_le_iff)
      then have "(of_int rem :: rat) / of_int ow \<le> (of_int ow - 1) / of_int ow"
        using owr by (simp add: divide_right_mono)
      also have "\<dots> = 1 - ib" using owr by (simp add: ib_def diff_divide_distrib)
      finally show ?thesis .
    qed
    have "of_int m \<le> R" using Rlo vb rb_lo v0 unfolding qm by linarith
    moreover have "R < of_int m + 1" using Rhi vb rb_hi v0 unfolding qm by linarith
    ultimately have "py_int R = m" using m0 by (rule py_int_floor)
    then show ?thesis using p by (simp add: m_def N_def)
  qed
qed

text \<open>
  C7 fails in the code. For a 4900 by 4900 image and \<open>--width 100\<close> the quotient
  \<open>100 / 4900\<close> is rounded to a double, the product with 4900 is the double just below
  100, and \<open>int\<close> truncates it to 99, where \<open>\<lfloor>4900 * 100 / 4900\<rfloor> = 100\<close>. For a 49 by 49
  image and \<open>--width 1\<close> the target height is 0. The same holds with width and height
  exchanged.
\<close>

theorem resize_target_truncates:
  "resize_target \<lparr>img_width = 4900, img_height = 4900, img_pixels = replicate 4900 (replicate 4900 p)\<rparr>
       (Some 100) None = Inr (Some (100, 99))
   \<and> resize_target \<lparr>img_width = 49, img_height = 49, img_pixels = replicate 49 (replicate 49 p)\<rparr>
       (Some 1) None = Inr (Some (1, 0))
   \<and> resize_target \<lparr>img_width = 49, img_height = 49, img_pixels = replicate 49 (replicate 49 p)\<rparr>
       None (Some 1) = Inr (Some (0, 1))"
proof -
  have a: "py_int (int_mul_float 4900 (rnd64 (100 / 4900))) = 99"
    unfolding int_mul_float_def py_float_def rnd64_def by code_simp
  have b: "py_int (int_mul_float 49 (rnd64 (1 / 49))) = 0"
    unfolding int_mul_float_def py_float_def rnd64_def by code_simp
  show ?thesis
    using a b
    by (simp add: resize_target_def truthy_def py_or_def proportional_def opt_truediv_def
        py_truediv_def)
qed

end
